theory Spec2Isabelle
  imports Main "HOL-Library.AList"
begin

section \<open>Texts\<close>

text \<open>
  A JavaScript string is a sequence of UTF-16 code units. A code unit is modelled
  by its number; \<open>u16\<close> turns an ASCII literal into such a sequence, and
  \<open>length\<close> is the string's \<open>.length\<close>.
\<close>

type_synonym jsstr = "nat list"

definition u16 :: "string \<Rightarrow> jsstr" where
  "u16 s = map of_char s"

text \<open>
  White space and line terminators of ECMAScript: the characters that \<open>\s\<close>
  matches and that \<open>String.prototype.trim\<close> strips.
\<close>

definition is_ws :: "nat \<Rightarrow> bool" where
  "is_ws c = (c = 9 \<or> c = 10 \<or> c = 11 \<or> c = 12 \<or> c = 13 \<or> c = 32 \<or> c = 160
     \<or> c = 5760 \<or> (8192 \<le> c \<and> c \<le> 8202) \<or> c = 8232 \<or> c = 8233
     \<or> c = 8239 \<or> c = 8287 \<or> c = 12288 \<or> c = 65279)"

definition js_trim :: "jsstr \<Rightarrow> jsstr" where
  "js_trim s = rev (dropWhile is_ws (rev (dropWhile is_ws s)))"

section \<open>The Sass compilation cache\<close>

text \<open>
  \<open>sassCache\<close> is a JavaScript \<open>Map\<close>: an association list in insertion order
  with distinct keys. \<open>Map.set\<close> overwrites the value of a present key in place
  and appends an absent one (\<open>AList.update\<close>); \<open>Map.delete\<close> removes the key
  (\<open>AList.delete\<close>); \<open>keys().next().value\<close> is the first key.

  The external compiler \<open>sass.compileString\<close> is a parameter: it returns the
  CSS text or throws an error object, of which only the \<open>message\<close> property is
  read (\<open>None\<close> when the property is missing).
\<close>

datatype sass_outcome = Css jsstr | Throws "jsstr option"

record compiler_state =
  sassCache :: "(jsstr \<times> jsstr) list"
  compilerCalls :: "jsstr list"

definition evictFirst :: "(jsstr \<times> jsstr) list \<Rightarrow> (jsstr \<times> jsstr) list" where
  "evictFirst cache =
     (if length cache > 10
      then (case cache of [] \<Rightarrow> cache | (firstKey, _) # _ \<Rightarrow> AList.delete firstKey cache)
      else cache)"

definition errorMessage :: "jsstr option \<Rightarrow> jsstr" where
  "errorMessage e = (case e of None \<Rightarrow> u16 ''Unknown error''
     | Some m \<Rightarrow> if m = [] then u16 ''Unknown error'' else m)"

text \<open>
  \<open>compileSass\<close>, with the view's \<open>isSassMode\<close> flag. The result is the returned
  text and the state after the call; \<open>compilerCalls\<close> records each invocation of
  the external compiler. The updates of the status element and of
  \<open>lastCompilationTime\<close> touch nothing the function returns and are left out.
\<close>

definition compileSass ::
  "(jsstr \<Rightarrow> sass_outcome) \<Rightarrow> bool \<Rightarrow> compiler_state \<Rightarrow> jsstr \<Rightarrow> jsstr \<times> compiler_state" where
  "compileSass sass isSassMode st sassContent =
     (if \<not> isSassMode \<or> js_trim sassContent = [] then (sassContent, st)
      else case map_of (sassCache st) sassContent of
        Some css \<Rightarrow> (css, st)
      | None \<Rightarrow>
         (let st1 = st\<lparr>compilerCalls := compilerCalls st @ [sassContent]\<rparr> in
          case sass sassContent of
            Css css \<Rightarrow>
              (css, st1\<lparr>sassCache := AList.update sassContent css (evictFirst (sassCache st))\<rparr>)
          | Throws e \<Rightarrow>
              (u16 ''/* Sass compilation error: '' @ errorMessage e @ u16 '' */'' @ [10]
                 @ sassContent, st1)))"

text \<open>Compiling a list of texts one after the other, keeping the state.\<close>

fun compileAll ::
  "(jsstr \<Rightarrow> sass_outcome) \<Rightarrow> bool \<Rightarrow> compiler_state \<Rightarrow> jsstr list \<Rightarrow> compiler_state" where
  "compileAll sass mode st [] = st"
| "compileAll sass mode st (s # ss) = compileAll sass mode (snd (compileSass sass mode st s)) ss"

definition emptyCache :: compiler_state where
  "emptyCache = \<lparr>sassCache = [], compilerCalls = []\<rparr>"

definition elevenTexts :: "jsstr list" where
  "elevenTexts = map u16
     [''.a{color:red}'', ''.b{color:red}'', ''.c{color:red}'', ''.d{color:red}'',
      ''.e{color:red}'', ''.f{color:red}'', ''.g{color:red}'', ''.h{color:red}'',
      ''.i{color:red}'', ''.j{color:red}'', ''.k{color:red}'']"

section \<open>The debounce scheduler\<close>

text \<open>
  The part of the view that \<open>onContentChange\<close>, \<open>clearUpdateTimeout\<close>,
  \<open>manualRefreshPreview\<close>, \<open>applySettings\<close>, \<open>cleanup\<close> and \<open>updatePreview\<close>
  read and write, together with the host's timer queue. Times are in milliseconds.
  \<open>timers\<close> holds the pending \<open>setTimeout\<close> jobs whose callback is
  \<open>this.updatePreview()\<close>, each with its handle and the time it is due; a handle
  is a truthy value, so \<open>if (this.updateTimeout)\<close> is \<open>updateTimeout \<noteq> None\<close>.
  \<open>frameRequests\<close> counts the pending \<open>requestAnimationFrame\<close> callbacks of
  \<open>updatePreview\<close>, and \<open>renders\<close> lists, oldest first, the markup and style
  that each executed callback read when it generated and rendered the preview.
\<close>

record view =
  htmlContent :: jsstr
  cssContent :: jsstr
  autoRefresh :: bool
  refreshDelay :: int
  updateTimeout :: "nat option"
  clock :: int
  timers :: "(nat \<times> int) list"
  nextHandle :: nat
  frameRequests :: nat
  renders :: "(jsstr \<times> jsstr) list"

text \<open>\<open>clearTimeout\<close> drops the job with that handle, if it is still pending.\<close>

definition clearTimeout :: "nat \<Rightarrow> view \<Rightarrow> view" where
  "clearTimeout h v = v\<lparr>timers := filter (\<lambda>(i, due). i \<noteq> h) (timers v)\<rparr>"

text \<open>
  \<open>this.updateTimeout = setTimeout(() => this.updatePreview(), delay)\<close>: the host
  treats a negative delay as zero.
\<close>

definition scheduleUpdate :: "int \<Rightarrow> view \<Rightarrow> view" where
  "scheduleUpdate delay v =
     v\<lparr>timers := timers v @ [(nextHandle v, clock v + max 0 delay)],
       updateTimeout := Some (nextHandle v),
       nextHandle := Suc (nextHandle v)\<rparr>"

definition clearUpdateTimeout :: "view \<Rightarrow> view" where
  "clearUpdateTimeout v =
     (case updateTimeout v of
        None \<Rightarrow> v
      | Some h \<Rightarrow> (clearTimeout h v)\<lparr>updateTimeout := None\<rparr>)"

definition adaptiveDelay :: "int \<Rightarrow> jsstr \<Rightarrow> jsstr \<Rightarrow> int" where
  "adaptiveDelay delay html css =
     (let contentSize = length html + length css
      in if contentSize > 5000 then min (delay * 2) 1000 else delay)"

text \<open>
  \<open>onContentChange\<close>, given the current text of the two editors. The throttled
  refresh of the export buttons does not touch the scheduler and is left out.
\<close>

definition onContentChange :: "jsstr \<Rightarrow> jsstr \<Rightarrow> view \<Rightarrow> view" where
  "onContentChange html css v =
     (let v1 = v\<lparr>htmlContent := html, cssContent := css\<rparr>
      in if autoRefresh v1
         then scheduleUpdate (adaptiveDelay (refreshDelay v1) (htmlContent v1) (cssContent v1))
                (clearUpdateTimeout v1)
         else v1)"

text \<open>\<open>updatePreview\<close> defers its work to the next animation frame.\<close>

definition updatePreview :: "view \<Rightarrow> view" where
  "updatePreview v = v\<lparr>frameRequests := Suc (frameRequests v)\<rparr>"

definition manualRefreshPreview :: "view \<Rightarrow> view" where
  "manualRefreshPreview v = updatePreview (clearUpdateTimeout v)"

text \<open>The part of \<open>applySettings\<close> that schedules a refresh, after the settings changed.\<close>

definition applySettings :: "bool \<Rightarrow> int \<Rightarrow> view \<Rightarrow> view" where
  "applySettings auto delay v =
     (let v1 = v\<lparr>autoRefresh := auto, refreshDelay := delay\<rparr>
      in if autoRefresh v1 \<and> (htmlContent v1 \<noteq> [] \<or> cssContent v1 \<noteq> [])
         then scheduleUpdate (refreshDelay v1) (clearUpdateTimeout v1)
         else v1)"

definition cleanup :: "view \<Rightarrow> view" where
  "cleanup v = clearUpdateTimeout v"

text \<open>
  Time passes: every pending job that is due by the new time fires, and its callback
  calls \<open>updatePreview\<close>. The handle stays in \<open>updateTimeout\<close>, as in the source.
\<close>

definition fireDue :: "view \<Rightarrow> view" where
  "fireDue v =
     (let due = filter (\<lambda>(i, t). t \<le> clock v) (timers v)
      in ((updatePreview ^^ length due) v)
           \<lparr>timers := filter (\<lambda>(i, t). \<not> t \<le> clock v) (timers v)\<rparr>)"

definition elapse :: "nat \<Rightarrow> view \<Rightarrow> view" where
  "elapse ms v = fireDue (v\<lparr>clock := clock v + int ms\<rparr>)"

text \<open>
  An animation frame: each pending callback of \<open>updatePreview\<close> generates the preview
  from the content of that moment and renders it.
\<close>

definition animationFrame :: "view \<Rightarrow> view" where
  "animationFrame v =
     v\<lparr>renders := renders v @ replicate (frameRequests v) (htmlContent v, cssContent v),
       frameRequests := 0\<rparr>"

datatype event =
    ContentChange jsstr jsstr
  | ManualRefresh
  | SettingsChange bool int
  | Cleanup
  | Elapse nat
  | AnimationFrame

fun step :: "event \<Rightarrow> view \<Rightarrow> view" where
  "step (ContentChange html css) v = onContentChange html css v"
| "step ManualRefresh v = manualRefreshPreview v"
| "step (SettingsChange auto delay) v = applySettings auto delay v"
| "step Cleanup v = cleanup v"
| "step (Elapse ms) v = elapse ms v"
| "step AnimationFrame v = animationFrame v"

fun run :: "event list \<Rightarrow> view \<Rightarrow> view" where
  "run [] v = v"
| "run (e # es) v = run es (step e v)"

text \<open>A freshly opened view: nothing scheduled, nothing rendered.\<close>

definition openView :: "bool \<Rightarrow> int \<Rightarrow> view" where
  "openView auto delay =
     \<lparr>htmlContent = [], cssContent = [], autoRefresh = auto, refreshDelay = delay,
      updateTimeout = None, clock = 0, timers = [], nextHandle = 1, frameRequests = 0,
      renders = []\<rparr>"

text \<open>
  The scheduler's invariant: no job is pending, or exactly one is and
  \<open>updateTimeout\<close> holds its handle.
\<close>

definition one_pending :: "view \<Rightarrow> bool" where
  "one_pending v =
     (case timers v of
        [] \<Rightarrow> True
      | [(h, due)] \<Rightarrow> updateTimeout v = Some h
      | _ \<Rightarrow> False)"

section \<open>The animation performance monitor\<close>

text \<open>
  \<open>AnimationPerformanceMonitor\<close>: \<open>animations\<close> is its \<open>Map\<close> from an animation
  name to the start time and frame count of the sample, \<open>rafId\<close> its last frame
  handle. \<open>pendingFrames\<close> holds the handles of the host's pending
  \<open>requestAnimationFrame(monitor)\<close> callbacks. Time stamps are in milliseconds.
\<close>

record monitor =
  animations :: "(jsstr \<times> (int \<times> nat)) list"
  rafId :: "nat option"
  pendingFrames :: "nat list"
  nextFrame :: nat

text \<open>
  What one run of the \<open>monitor\<close> callback meets in the preview frame: no document;
  a document whose inspection throws; or the selected elements, each with the
  \<open>animationName\<close> of its computed style, or with a computed style that throws.
\<close>

datatype element_style = AnimationName jsstr | StyleThrows

datatype frame_dom = NoDocument | QueryThrows | Selected "element_style list"

definition requestMonitorFrame :: "monitor \<Rightarrow> monitor" where
  "requestMonitorFrame m =
     m\<lparr>rafId := Some (nextFrame m),
       pendingFrames := pendingFrames m @ [nextFrame m],
       nextFrame := Suc (nextFrame m)\<rparr>"

text \<open>The body of the \<open>forEach\<close> for one element with the given animation name.\<close>

definition recordElement ::
  "int \<Rightarrow> jsstr \<Rightarrow> (jsstr \<times> (int \<times> nat)) list \<Rightarrow> (jsstr \<times> (int \<times> nat)) list" where
  "recordElement now animationName anims =
     (if animationName \<noteq> [] \<and> animationName \<noteq> u16 ''none''
      then (let anims1 = (if map_of anims animationName = None
                          then AList.update animationName (now, 0) anims else anims)
            in case map_of anims1 animationName of
                 Some (startTime, frameCount) \<Rightarrow>
                   AList.update animationName (startTime, Suc frameCount) anims1
               | None \<Rightarrow> anims1)
      else anims)"

text \<open>
  The \<open>forEach\<close> over the selected elements: the samples after it, and whether it
  ran to its end (\<open>False\<close>: a computed style threw, and the rest was skipped).
\<close>

fun inspectElements ::
  "int \<Rightarrow> element_style list \<Rightarrow> (jsstr \<times> (int \<times> nat)) list
     \<Rightarrow> (jsstr \<times> (int \<times> nat)) list \<times> bool" where
  "inspectElements now [] anims = (anims, True)"
| "inspectElements now (StyleThrows # els) anims = (anims, False)"
| "inspectElements now (AnimationName n # els) anims =
     inspectElements now els (recordElement now n anims)"

text \<open>
  One run of \<open>monitor\<close>. The next frame is requested as the last statement inside
  the \<open>try\<close>; the \<open>catch\<close> is empty.
\<close>

definition monitorCallback :: "int \<Rightarrow> frame_dom \<Rightarrow> monitor \<Rightarrow> monitor" where
  "monitorCallback now seen m =
     (case seen of
        NoDocument \<Rightarrow> m
      | QueryThrows \<Rightarrow> m
      | Selected els \<Rightarrow>
          (case inspectElements now els (animations m) of
             (anims, True) \<Rightarrow> requestMonitorFrame (m\<lparr>animations := anims\<rparr>)
           | (anims, False) \<Rightarrow> m\<lparr>animations := anims\<rparr>))"

definition startMonitoring :: "bool \<Rightarrow> monitor \<Rightarrow> monitor" where
  "startMonitoring hasContentWindow m =
     (if \<not> hasContentWindow then m else requestMonitorFrame m)"

definition stopMonitoring :: "monitor \<Rightarrow> monitor" where
  "stopMonitoring m =
     (case rafId m of
        None \<Rightarrow> m
      | Some h \<Rightarrow> m\<lparr>pendingFrames := removeAll h (pendingFrames m), rafId := None\<rparr>)"

definition reset :: "monitor \<Rightarrow> monitor" where
  "reset m = m\<lparr>animations := []\<rparr>"

text \<open>
  An animation frame of the host: the callbacks pending when the frame begins run
  one after the other; what they request is for the next frame.
\<close>

definition monitorFrame :: "int \<Rightarrow> frame_dom \<Rightarrow> monitor \<Rightarrow> monitor" where
  "monitorFrame now seen m =
     ((monitorCallback now seen) ^^ length (pendingFrames m)) (m\<lparr>pendingFrames := []\<rparr>)"

definition newMonitor :: monitor where
  "newMonitor = \<lparr>animations = [], rafId = None, pendingFrames = [], nextFrame = 1\<rparr>"

text \<open>Whether one run of \<open>monitor\<close> on this frame throws inside its \<open>try\<close>.\<close>

definition inspectionThrows :: "int \<Rightarrow> frame_dom \<Rightarrow> monitor \<Rightarrow> bool" where
  "inspectionThrows now seen m =
     (case seen of
        NoDocument \<Rightarrow> False
      | QueryThrows \<Rightarrow> True
      | Selected els \<Rightarrow> \<not> snd (inspectElements now els (animations m)))"

section \<open>The renderer and its sinks\<close>

text \<open>
  A sink is an \<open>iframe\<close>. During one callback its \<open>contentDocument\<close> is missing
  (\<open>null\<close>), or can be written, or raises on \<open>open\<close>, \<open>write\<close> and \<open>close\<close>.
  \<open>pipFrame\<close> is \<open>None\<close> when the floating view is closed, and
  \<open>fullscreenOverlay\<close> is \<open>None\<close> when there is no overlay; an overlay holds the
  frame that \<open>querySelector\<close> finds in it, if any.
\<close>

datatype frame_document = Missing | Writable | Raising

record sinks =
  previewFrame :: frame_document
  pipFrame :: "frame_document option"
  fullscreenOverlay :: "frame_document option option"

datatype sink = Primary | Floating | Fullscreen

text \<open>
  What a render does to the sinks: text written into a sink's document, an error
  caught and reported with \<open>console.error\<close>, or an error that no handler of the
  view catches.
\<close>

datatype effect = Wrote sink jsstr | ConsoleError sink | Uncaught sink

fun effectSink :: "effect \<Rightarrow> sink" where
  "effectSink (Wrote k text) = k"
| "effectSink (ConsoleError k) = k"
| "effectSink (Uncaught k) = k"

text \<open>
  \<open>renderPreviewContentToFrame\<close>, for the frame of sink \<open>k\<close>; the frame reference
  itself may be \<open>null\<close>, and reading \<open>contentDocument\<close> of it raises inside the \<open>try\<close>.
\<close>

definition renderPreviewContentToFrame ::
  "sink \<Rightarrow> frame_document option \<Rightarrow> jsstr \<Rightarrow> effect list" where
  "renderPreviewContentToFrame k frame content =
     (case frame of
        None \<Rightarrow> [ConsoleError k]
      | Some Missing \<Rightarrow> []
      | Some Writable \<Rightarrow> [Wrote k content]
      | Some Raising \<Rightarrow> [ConsoleError k])"

text \<open>\<open>renderPreviewError\<close> writes the error page into the primary frame.\<close>

definition renderPreviewError :: "sinks \<Rightarrow> jsstr \<Rightarrow> effect list" where
  "renderPreviewError env errorContent =
     (case previewFrame env of
        Missing \<Rightarrow> []
      | Writable \<Rightarrow> [Wrote Primary errorContent]
      | Raising \<Rightarrow> [ConsoleError Primary])"

definition renderPreviewContent :: "sinks \<Rightarrow> jsstr \<Rightarrow> jsstr \<Rightarrow> effect list" where
  "renderPreviewContent env errorContent content =
     (case previewFrame env of
        Missing \<Rightarrow> []
      | Writable \<Rightarrow> [Wrote Primary content]
      | Raising \<Rightarrow> renderPreviewError env errorContent)"

text \<open>
  The animation-frame callback of \<open>updatePreview\<close>, for the generated \<open>content\<close>:
  it renders into the primary frame and defers the rest. The deferred callbacks run
  later, when the sinks may have changed.
\<close>

datatype deferred = StartMonitoring | PipPush jsstr | FullscreenPush jsstr

definition updatePreviewFrame ::
  "sinks \<Rightarrow> jsstr \<Rightarrow> jsstr \<Rightarrow> effect list \<times> deferred list" where
  "updatePreviewFrame env errorContent content =
     (renderPreviewContent env errorContent content,
      [StartMonitoring]
      @ (if pipFrame env \<noteq> None then [PipPush content] else [])
      @ (if fullscreenOverlay env \<noteq> None then [FullscreenPush content] else []))"

fun runDeferred :: "sinks \<Rightarrow> deferred \<Rightarrow> effect list" where
  "runDeferred env StartMonitoring = []"
| "runDeferred env (PipPush content) =
     renderPreviewContentToFrame Floating (pipFrame env) content"
| "runDeferred env (FullscreenPush content) =
     (case fullscreenOverlay env of
        None \<Rightarrow> [Uncaught Fullscreen]
      | Some None \<Rightarrow> []
      | Some (Some frame) \<Rightarrow> renderPreviewContentToFrame Fullscreen (Some frame) content)"

text \<open>
  A whole render: the frame callback with the sinks as they are at render time,
  then its deferred callbacks with the sinks as they are when those run.
\<close>

definition render :: "sinks \<Rightarrow> sinks \<Rightarrow> jsstr \<Rightarrow> jsstr \<Rightarrow> effect list" where
  "render env later errorContent content =
     fst (updatePreviewFrame env errorContent content)
     @ concat (map (runDeferred later) (snd (updatePreviewFrame env errorContent content)))"

definition effectsOn :: "sink \<Rightarrow> effect list \<Rightarrow> effect list" where
  "effectsOn k effects = filter (\<lambda>e. effectSink e = k) effects"

section \<open>The regular expressions of the sanitizers\<close>

text \<open>
  The expressions of the two sanitizers are sequences of items: a character, or a
  character class under a greedy \<open>*\<close>, a lazy \<open>*?\<close> or a greedy \<open>+\<close>. The classes
  that occur are \<open>[\s\S]\<close>, \<open>\s\<close> and \<open>[^x]\<close>.

  All expressions carry the flag \<open>i\<close>, which compares canonicalized characters.
  The expressions contain ASCII characters only, and the canonical form of a code
  unit is an ASCII character exactly when the code unit is, so upper-casing the
  ASCII letters decides the comparison.
\<close>

type_synonym matcher = "jsstr \<Rightarrow> jsstr option"

definition ascii_upper :: "nat \<Rightarrow> nat" where
  "ascii_upper c = (if 97 \<le> c \<and> c \<le> 122 then c - 32 else c)"

datatype rx_class = AnyChar | Space | Except nat

datatype rx_item = Chr nat | Star rx_class | LazyStar rx_class | Plus rx_class

fun in_class :: "rx_class \<Rightarrow> nat \<Rightarrow> bool" where
  "in_class AnyChar c = True"
| "in_class Space c = is_ws c"
| "in_class (Except x) c = (ascii_upper c \<noteq> ascii_upper x)"

text \<open>
  \<open>rx_exec\<close> tries an expression at one position, as a backtracking matcher does.
  Given the text from that position on, it returns the text after the match, or
  \<open>None\<close> when the expression does not match there. The match is the first one in
  the order of the attempts: a greedy repetition tries one more character before
  it tries the rest of the expression, a lazy repetition tries the rest first.
\<close>

fun rx_exec :: "rx_item list \<Rightarrow> matcher" where
  "rx_exec [] s = Some s"
| "rx_exec (Chr p # ps) [] = None"
| "rx_exec (Chr p # ps) (c # cs) = (if ascii_upper c = ascii_upper p then rx_exec ps cs else None)"
| "rx_exec (Star k # ps) [] = rx_exec ps []"
| "rx_exec (Star k # ps) (c # cs) =
     (if in_class k c
      then (case rx_exec (Star k # ps) cs of Some r \<Rightarrow> Some r | None \<Rightarrow> rx_exec ps (c # cs))
      else rx_exec ps (c # cs))"
| "rx_exec (LazyStar k # ps) [] = rx_exec ps []"
| "rx_exec (LazyStar k # ps) (c # cs) =
     (case rx_exec ps (c # cs) of
        Some r \<Rightarrow> Some r
      | None \<Rightarrow> if in_class k c then rx_exec (LazyStar k # ps) cs else None)"
| "rx_exec (Plus k # ps) [] = None"
| "rx_exec (Plus k # ps) (c # cs) = (if in_class k c then rx_exec (Star k # ps) cs else None)"

definition chars :: "string \<Rightarrow> rx_item list" where
  "chars s = map Chr (u16 s)"

text \<open>\<open>RegExp.prototype.test\<close> of a fresh global expression: is there a match anywhere.\<close>

fun rx_test :: "matcher \<Rightarrow> jsstr \<Rightarrow> bool" where
  "rx_test m [] = (m [] \<noteq> None)"
| "rx_test m (c # cs) = (m (c # cs) \<noteq> None \<or> rx_test m cs)"

text \<open>
  \<open>String.prototype.replace\<close> with a global expression and a replacement text
  without \<open>$\<close>: the matches are found from left to right, each search starting where
  the previous match ended; after an empty match the search moves on by one
  character.
\<close>

function replace_all :: "matcher \<Rightarrow> jsstr \<Rightarrow> jsstr \<Rightarrow> jsstr" where
  "replace_all m rep [] = (case m [] of None \<Rightarrow> [] | Some r \<Rightarrow> rep)"
| "replace_all m rep (c # cs) =
     (case m (c # cs) of
        None \<Rightarrow> c # replace_all m rep cs
      | Some r \<Rightarrow>
          if length r \<le> length cs then rep @ replace_all m rep r
          else rep @ c # replace_all m rep cs)"
  by pat_completeness auto
termination
  by (relation "measure (\<lambda>(m, rep, s). length s)") auto

section \<open>The sanitizers\<close>

text \<open>The body of the \<open>forEach\<close> over the dangerous patterns.\<close>

definition removeMatches :: "jsstr \<Rightarrow> jsstr \<Rightarrow> matcher \<Rightarrow> jsstr" where
  "removeMatches rep sanitized pattern =
     (if rx_test pattern sanitized then replace_all pattern rep sanitized else sanitized)"

text \<open>
  \<open>/<script[^>]*>[\s\S]*?<\/script>/gi\<close>, the same for \<open>iframe\<close> and \<open>object\<close>,
  \<open>/<embed[^>]*>/gi\<close>, and the same as the first for \<open>form\<close>.
\<close>

definition dangerousHTML :: "matcher list" where
  "dangerousHTML = map rx_exec
     [chars ''<script'' @ [Star (Except 62), Chr 62, LazyStar AnyChar] @ chars ''</script>'',
      chars ''<iframe'' @ [Star (Except 62), Chr 62, LazyStar AnyChar] @ chars ''</iframe>'',
      chars ''<object'' @ [Star (Except 62), Chr 62, LazyStar AnyChar] @ chars ''</object>'',
      chars ''<embed'' @ [Star (Except 62), Chr 62],
      chars ''<form'' @ [Star (Except 62), Chr 62, LazyStar AnyChar] @ chars ''</form>'']"

definition unsafeElement :: jsstr where
  "unsafeElement = u16 ''<!-- Unsafe element removed for security -->''"

definition validateAndSanitizeHTML :: "jsstr \<Rightarrow> jsstr" where
  "validateAndSanitizeHTML html =
     (if js_trim html = [] then u16 ''<p><em>No HTML content to preview</em></p>''
      else foldl (removeMatches unsafeElement) html dangerousHTML)"

text \<open>
  \<open>/@import\s+url\s*\([^)]*\)/gi\<close>, \<open>/javascript\s*:/gi\<close>, \<open>/expression\s*\(/gi\<close>
  and \<open>/behavior\s*:/gi\<close>.
\<close>

definition dangerousCSS :: "matcher list" where
  "dangerousCSS = map rx_exec
     [chars ''@import'' @ [Plus Space] @ chars ''url''
        @ [Star Space, Chr 40, Star (Except 41), Chr 41],
      chars ''javascript'' @ [Star Space, Chr 58],
      chars ''expression'' @ [Star Space, Chr 40],
      chars ''behavior'' @ [Star Space, Chr 58]]"

definition unsafeCSS :: jsstr where
  "unsafeCSS = u16 ''/* Unsafe CSS removed */''"

definition validateAndSanitizeCSS :: "jsstr \<Rightarrow> jsstr" where
  "validateAndSanitizeCSS css =
     (if js_trim css = [] then u16 ''/* No CSS content */''
      else foldl (removeMatches unsafeCSS) css dangerousCSS)"

section \<open>The expressions piece by piece\<close>

text \<open>
  For the proofs the expressions are put together from matchers for their pieces.
  In each expression the piece that follows a repetition starts with a character
  the repetition cannot consume, or it is the first place at which a lazy
  repetition can stop, so no attempt after the first can succeed where the first
  fails, and the pieces can be run one after the other; the properties section
  proves that this gives the matchers that \<open>rx_exec\<close> computes.
\<close>

text \<open>A run of literal characters, ignoring case.\<close>

fun lit :: "jsstr \<Rightarrow> matcher" where
  "lit [] s = Some s"
| "lit (p # ps) [] = None"
| "lit (p # ps) (c # cs) = (if ascii_upper c = ascii_upper p then lit ps cs else None)"

text \<open>\<open>[^x]*x\<close>: everything up to and including the next \<open>x\<close>.\<close>

fun until :: "nat \<Rightarrow> matcher" where
  "until x [] = None"
| "until x (c # cs) = (if c = x then Some cs else until x cs)"

text \<open>\<open>[\s\S]*?\<close> followed by \<open>m\<close>: the first place from here on at which \<open>m\<close> matches.\<close>

fun lazy_any :: "matcher \<Rightarrow> matcher" where
  "lazy_any m [] = m []"
| "lazy_any m (c # cs) = (case m (c # cs) of Some r \<Rightarrow> Some r | None \<Rightarrow> lazy_any m cs)"

text \<open>\<open>\s*\<close> and \<open>\s+\<close>, greedy.\<close>

definition ws_star :: matcher where
  "ws_star s = Some (dropWhile is_ws s)"

definition ws_plus :: matcher where
  "ws_plus s = (case s of [] \<Rightarrow> None
     | c # cs \<Rightarrow> if is_ws c then Some (dropWhile is_ws cs) else None)"

definition seq :: "matcher \<Rightarrow> matcher \<Rightarrow> matcher" where
  "seq a b s = (case a s of None \<Rightarrow> None | Some r \<Rightarrow> b r)"

text \<open>
  \<open>/<name[^>]*>[\s\S]*?<\/name>/gi\<close>, \<open>/<embed[^>]*>/gi\<close>,
  \<open>/@import\s+url\s*\([^)]*\)/gi\<close>, and \<open>/word\s*c/gi\<close> for a word and a character.
\<close>

definition rx_element :: "jsstr \<Rightarrow> matcher" where
  "rx_element name =
     seq (lit (u16 ''<'' @ name))
       (seq (until 62) (lazy_any (lit (u16 ''</'' @ name @ u16 ''>''))))"

definition rx_embed :: matcher where
  "rx_embed = seq (lit (u16 ''<embed'')) (until 62)"

definition rx_import :: matcher where
  "rx_import =
     seq (lit (u16 ''@import''))
       (seq ws_plus (seq (lit (u16 ''url'')) (seq ws_star (seq (lit (u16 ''('')) (until 41)))))"

definition rx_word :: "jsstr \<Rightarrow> nat \<Rightarrow> matcher" where
  "rx_word word c = seq (lit word) (seq ws_star (lit [c]))"

section \<open>Notions used in the proofs about the sanitizers\<close>

text \<open>
  A matcher is \<open>proper\<close> when every match is a non-empty piece taken from the front
  of the text. For a replacement pass with matcher \<open>m\<close> and replacement \<open>rep\<close>, a
  matcher \<open>k\<close> \<open>pulls_back\<close> when every match of \<open>k\<close> at the front of the replaced
  text comes from a match of \<open>k\<close> at the front of the original text, with the rest
  replaced in the same way; it \<open>survives\<close> when a match in front of the replaced
  text implies one in front of the original.
\<close>

definition proper :: "matcher \<Rightarrow> bool" where
  "proper m = (\<forall>s r. m s = Some r \<longrightarrow> (\<exists>w. w \<noteq> [] \<and> s = w @ r))"

definition pulls_back :: "matcher \<Rightarrow> jsstr \<Rightarrow> matcher \<Rightarrow> bool" where
  "pulls_back m rep k =
     (\<forall>s r. k (replace_all m rep s) = Some r \<longrightarrow>
        (\<exists>s'. k s = Some s' \<and> r = replace_all m rep s'))"

definition survives :: "matcher \<Rightarrow> jsstr \<Rightarrow> matcher \<Rightarrow> bool" where
  "survives m rep k = (\<forall>s. k (replace_all m rep s) \<noteq> None \<longrightarrow> k s \<noteq> None)"

text \<open>
  Every match of \<open>m\<close> contains the character \<open>x\<close>; no match of \<open>m\<close> starts with
  white space.
\<close>

definition cuts_with :: "nat \<Rightarrow> matcher \<Rightarrow> bool" where
  "cuts_with x m = (\<forall>s r. m s = Some r \<longrightarrow> (\<exists>w. x \<in> set w \<and> s = w @ r))"

definition starts_solid :: "matcher \<Rightarrow> bool" where
  "starts_solid m = (\<forall>c cs r. m (c # cs) = Some r \<longrightarrow> \<not> is_ws c)"

text \<open>Every match of \<open>k\<close> is a piece taken from the front of the text.\<close>

definition cuts :: "matcher \<Rightarrow> bool" where
  "cuts k = (\<forall>s r. k s = Some r \<longrightarrow> (\<exists>w. s = w @ r))"

section \<open>The assembled document\<close>

text \<open>\<open>String.prototype.startsWith\<close> and \<open>String.prototype.includes\<close>.\<close>

fun starts_with :: "jsstr \<Rightarrow> jsstr \<Rightarrow> bool" where
  "starts_with s [] = True"
| "starts_with [] (p # ps) = False"
| "starts_with (c # cs) (p # ps) = (c = p \<and> starts_with cs ps)"

fun js_includes :: "jsstr \<Rightarrow> jsstr \<Rightarrow> bool" where
  "js_includes [] t = (t = [])"
| "js_includes (c # cs) t = (starts_with (c # cs) t \<or> js_includes cs t)"








section \<open>Properties of the compilation cache\<close>

lemma length_delete_present:
  "k \<in> fst ` set al \<Longrightarrow> length (AList.delete k al) < length al"
  by (auto simp: AList.delete_eq intro!: length_filter_less)

lemma length_update_le: "length (AList.update k v al) \<le> Suc (length al)"
  by (induction al) auto

lemma length_evictFirst: "length cache \<le> 11 \<Longrightarrow> length (evictFirst cache) \<le> 10"
proof (cases cache)
  case Nil
  then show ?thesis by (simp add: evictFirst_def)
next
  case (Cons p ps)
  assume le: "length cache \<le> 11"
  obtain k v where p: "p = (k, v)" by (cases p)
  have "length (AList.delete k cache) < length cache"
    using Cons p by (intro length_delete_present) simp
  with le Cons p show ?thesis by (simp add: evictFirst_def)
qed

text \<open>What the eviction check does bound: the cache never holds more than 11 entries.\<close>

lemma cache_at_most_eleven:
  assumes "length (sassCache st) \<le> 11"
  shows "length (sassCache (snd (compileSass sass mode st s))) \<le> 11"
proof -
  have "length (AList.update s css (evictFirst (sassCache st))) \<le> 11" for css
    using length_update_le [of s css "evictFirst (sassCache st)"]
      length_evictFirst [OF assms] by simp
  with assms show ?thesis
    by (simp add: compileSass_def Let_def split: option.splits sass_outcome.splits)
qed

text \<open>
  C1. Claimed: the cache never holds more than 10 entries, and after 11 distinct
  texts the first one has been evicted. The source tests \<open>size > 10\<close> before it
  inserts, so the eleventh distinct text is stored next to the ten before it: for
  the eleven rules \<open>.a{color:red}\<close> to \<open>.k{color:red}\<close>, on which a compiler
  succeeds, the cache holds all 11 texts after compiling them one after the other,
  the first one included.
\<close>

theorem cache_holds_eleven_entries:
  "length (sassCache (compileAll Css True emptyCache elevenTexts)) = 11
   \<and> map_of (sassCache (compileAll Css True emptyCache elevenTexts)) (u16 ''.a{color:red}'')
       = Some (u16 ''.a{color:red}'')
   \<and> map fst (sassCache (compileAll Css True emptyCache elevenTexts)) = elevenTexts"
  by (simp add: elevenTexts_def emptyCache_def compileSass_def js_trim_def u16_def
      evictFirst_def is_ws_def)

text \<open>
  C3, as claimed, fails on a text the compiler rejects: nothing is cached, and the
  second call invokes the compiler again.
\<close>

theorem compile_twice_counterexample:
  "compilerCalls (snd (compileSass (\<lambda>s. Throws (Some (u16 ''bad''))) True
      (snd (compileSass (\<lambda>s. Throws (Some (u16 ''bad''))) True emptyCache
         (u16 ''.x { color: }''))) (u16 ''.x { color: }'')))
   = [u16 ''.x { color: }'', u16 ''.x { color: }'']"
  by (simp add: emptyCache_def compileSass_def js_trim_def u16_def is_ws_def)

text \<open>
  C3, amended. In Sass mode, for a text that is not blank, not yet cached and
  accepted by the compiler, two calls in succession invoke the compiler exactly
  once: the first call invokes it and stores the result, the second call is answered
  from the cache, leaves the state as it is, and returns the same text.
\<close>

theorem compile_twice_invokes_once:
  assumes "mode" and "js_trim s \<noteq> []" and "sass s = Css css"
    and "map_of (sassCache st) s = None"
  shows "compileSass sass mode st s =
           (css, st\<lparr>compilerCalls := compilerCalls st @ [s],
                   sassCache := AList.update s css (evictFirst (sassCache st))\<rparr>)
    \<and> compileSass sass mode (snd (compileSass sass mode st s)) s =
           (css, snd (compileSass sass mode st s))"
  using assms by (simp add: compileSass_def update_conv')

theorem compile_twice_invokes_once_witness:
  "compileSass Css True (snd (compileSass Css True emptyCache (u16 ''$c: blue;''))) (u16 ''$c: blue;'')
     = (u16 ''$c: blue;'',
        \<lparr>sassCache = [(u16 ''$c: blue;'', u16 ''$c: blue;'')],
         compilerCalls = [u16 ''$c: blue;'']\<rparr>)"
proof -
  have nb: "js_trim (u16 ''$c: blue;'') \<noteq> []"
    by (simp add: js_trim_def u16_def is_ws_def)
  have miss: "map_of (sassCache emptyCache) (u16 ''$c: blue;'') = None"
    by (simp add: emptyCache_def)
  note both = compile_twice_invokes_once [of True "u16 ''$c: blue;''" Css "u16 ''$c: blue;''"
      emptyCache, OF TrueI nb refl miss]
  have first: "compileSass Css True emptyCache (u16 ''$c: blue;'')
     = (u16 ''$c: blue;'',
        \<lparr>sassCache = [(u16 ''$c: blue;'', u16 ''$c: blue;'')],
         compilerCalls = [u16 ''$c: blue;'']\<rparr>)"
    using both by (simp add: emptyCache_def evictFirst_def)
  from both [THEN conjunct2] show ?thesis by (simp only: first snd_conv)
qed

text \<open>
  C6. When the external compiler throws on a text, \<open>compileSass\<close> returns a value
  (nothing propagates) and the cache is as before the call. When the compiler is
  reached (Sass mode, the text not blank and not cached), the value is the comment
  \<open>/* Sass compilation error: message */\<close>, a line feed, and the text as given; the
  message is the one of the error, or \<open>Unknown error\<close> when the error has none.
\<close>

theorem compileSass_failure:
  assumes "sass s = Throws e"
  shows "sassCache (snd (compileSass sass mode st s)) = sassCache st
    \<and> (mode \<and> js_trim s \<noteq> [] \<and> map_of (sassCache st) s = None \<longrightarrow>
         compileSass sass mode st s =
           (u16 ''/* Sass compilation error: '' @ errorMessage e @ u16 '' */'' @ [10] @ s,
            st\<lparr>compilerCalls := compilerCalls st @ [s]\<rparr>))
    \<and> (\<forall>m. e = Some m \<and> m \<noteq> [] \<longrightarrow> errorMessage e = m)"
  using assms by (simp add: compileSass_def errorMessage_def split: option.splits)

theorem compileSass_failure_witness:
  "compileSass (\<lambda>s. Throws (Some (u16 ''expected expression''))) True emptyCache
      (u16 ''.x { color: }'')
   = (u16 ''/* Sass compilation error: expected expression */'' @ [10] @ u16 ''.x { color: }'',
      \<lparr>sassCache = [], compilerCalls = [u16 ''.x { color: }'']\<rparr>)"
proof -
  have nb: "js_trim (u16 ''.x { color: }'') \<noteq> []"
    by (simp add: js_trim_def u16_def is_ws_def)
  have miss: "map_of (sassCache emptyCache) (u16 ''.x { color: }'') = None"
    by (simp add: emptyCache_def)
  show ?thesis
    using compileSass_failure [of "\<lambda>s. Throws (Some (u16 ''expected expression''))"
        "u16 ''.x { color: }''" "Some (u16 ''expected expression'')" True emptyCache, OF refl]
      nb miss
    by (simp add: emptyCache_def errorMessage_def u16_def)
qed

section \<open>Properties of the debounce scheduler\<close>

lemma one_pending_clear: "one_pending v \<Longrightarrow> timers (clearUpdateTimeout v) = []"
  by (auto simp: one_pending_def clearUpdateTimeout_def clearTimeout_def
      split: list.splits option.splits)

lemma one_pending_step: "one_pending v \<Longrightarrow> one_pending (step e v)"
proof (cases e)
  case (ContentChange h c)
  assume "one_pending v"
  then have *: "one_pending (v\<lparr>htmlContent := h, cssContent := c\<rparr>)"
    by (auto simp: one_pending_def split: list.splits)
  from one_pending_clear [OF *] * show ?thesis using ContentChange
    by (auto simp: onContentChange_def scheduleUpdate_def one_pending_def Let_def
        split: list.splits)
next
  case ManualRefresh
  assume "one_pending v"
  from one_pending_clear [OF this] show ?thesis using ManualRefresh
    by (simp add: manualRefreshPreview_def updatePreview_def one_pending_def)
next
  case (SettingsChange a d)
  assume "one_pending v"
  then have *: "one_pending (v\<lparr>autoRefresh := a, refreshDelay := d\<rparr>)"
    by (auto simp: one_pending_def split: list.splits)
  from one_pending_clear [OF *] * show ?thesis using SettingsChange
    by (auto simp: applySettings_def scheduleUpdate_def one_pending_def Let_def
        split: list.splits)
next
  case Cleanup
  assume "one_pending v"
  from one_pending_clear [OF this] show ?thesis using Cleanup
    by (simp add: cleanup_def one_pending_def)
next
  case (Elapse ms)
  assume "one_pending v"
  then show ?thesis using Elapse
    by (auto simp: elapse_def fireDue_def one_pending_def Let_def updatePreview_def
        split: list.splits)
next
  case AnimationFrame
  assume "one_pending v"
  then show ?thesis using AnimationFrame
    by (auto simp: animationFrame_def one_pending_def split: list.splits)
qed

lemma one_pending_run: "one_pending v \<Longrightarrow> one_pending (run es v)"
  by (induction es arbitrary: v) (simp_all add: one_pending_step)

lemma one_pending_open: "one_pending (openView auto delay)"
  by (simp add: one_pending_def openView_def)

lemma one_pending_length: "one_pending v \<Longrightarrow> length (timers v) \<le> 1"
  by (auto simp: one_pending_def split: list.splits)

lemma onContentChange_replaces:
  assumes "one_pending v" and "autoRefresh v"
  shows "timers (onContentChange html css v) =
           [(nextHandle v, clock v + max 0 (adaptiveDelay (refreshDelay v) html css))]"
proof -
  have *: "one_pending (v\<lparr>htmlContent := html, cssContent := css\<rparr>)"
    using assms(1) by (auto simp: one_pending_def split: list.splits)
  have "nextHandle (clearUpdateTimeout (v\<lparr>htmlContent := html, cssContent := css\<rparr>)) = nextHandle v"
    and "clock (clearUpdateTimeout (v\<lparr>htmlContent := html, cssContent := css\<rparr>)) = clock v"
    by (simp_all add: clearUpdateTimeout_def clearTimeout_def split: option.splits)
  with one_pending_clear [OF *] assms(2) show ?thesis
    by (simp add: onContentChange_def scheduleUpdate_def Let_def)
qed

text \<open>
  C4. Whatever the view has been through since it was opened (content changes,
  manual refreshes, settings changes, cleanup, time passing, animation frames), at
  most one debounce job is pending; and with automatic refresh on, a content change
  leaves exactly one pending job, the one it has just scheduled, any earlier one
  having been cancelled. With a delay of 100 ms, changes at 0, 10 and 20 ms have
  rendered nothing by 119 ms and exactly once after 120 ms, and that render shows
  the content of the third change.
\<close>

theorem debounce_one_pending_job:
  "length (timers (run es (openView auto delay))) \<le> 1
   \<and> (autoRefresh (run es (openView auto delay)) \<longrightarrow>
        timers (onContentChange html css (run es (openView auto delay))) =
          [(nextHandle (run es (openView auto delay)),
            clock (run es (openView auto delay))
              + max 0 (adaptiveDelay (refreshDelay (run es (openView auto delay))) html css))])
   \<and> renders (run [ContentChange (u16 ''<p>a</p>'') (u16 ''p{}''), Elapse 10,
                   ContentChange (u16 ''<p>ab</p>'') (u16 ''p{}''), Elapse 10,
                   ContentChange (u16 ''<p>abc</p>'') (u16 ''p{}''), Elapse 99,
                   AnimationFrame] (openView True 100)) = []
   \<and> renders (run [ContentChange (u16 ''<p>a</p>'') (u16 ''p{}''), Elapse 10,
                   ContentChange (u16 ''<p>ab</p>'') (u16 ''p{}''), Elapse 10,
                   ContentChange (u16 ''<p>abc</p>'') (u16 ''p{}''), Elapse 99,
                   AnimationFrame, Elapse 1, AnimationFrame, Elapse 1000, AnimationFrame]
                (openView True 100)) = [(u16 ''<p>abc</p>'', u16 ''p{}'')]"
proof -
  have inv: "one_pending (run es (openView auto delay))"
    by (rule one_pending_run [OF one_pending_open])
  have a: "length (timers (run es (openView auto delay))) \<le> 1"
    by (rule one_pending_length [OF inv])
  have b: "autoRefresh (run es (openView auto delay)) \<longrightarrow>
        timers (onContentChange html css (run es (openView auto delay))) =
          [(nextHandle (run es (openView auto delay)),
            clock (run es (openView auto delay))
              + max 0 (adaptiveDelay (refreshDelay (run es (openView auto delay))) html css))]"
    using onContentChange_replaces [OF inv] by blast
  have c: "renders (run [ContentChange (u16 ''<p>a</p>'') (u16 ''p{}''), Elapse 10,
                   ContentChange (u16 ''<p>ab</p>'') (u16 ''p{}''), Elapse 10,
                   ContentChange (u16 ''<p>abc</p>'') (u16 ''p{}''), Elapse 99,
                   AnimationFrame] (openView True 100)) = []"
    by (simp add: openView_def onContentChange_def scheduleUpdate_def clearUpdateTimeout_def
        clearTimeout_def adaptiveDelay_def elapse_def fireDue_def updatePreview_def
        animationFrame_def u16_def Let_def)
  have d: "renders (run [ContentChange (u16 ''<p>a</p>'') (u16 ''p{}''), Elapse 10,
                   ContentChange (u16 ''<p>ab</p>'') (u16 ''p{}''), Elapse 10,
                   ContentChange (u16 ''<p>abc</p>'') (u16 ''p{}''), Elapse 99,
                   AnimationFrame, Elapse 1, AnimationFrame, Elapse 1000, AnimationFrame]
                (openView True 100)) = [(u16 ''<p>abc</p>'', u16 ''p{}'')]"
    by (simp add: openView_def onContentChange_def scheduleUpdate_def clearUpdateTimeout_def
        clearTimeout_def adaptiveDelay_def elapse_def fireDue_def updatePreview_def
        animationFrame_def u16_def Let_def)
  from a b c d show ?thesis by blast
qed

theorem debounce_one_pending_job_witness:
  "length (timers (run [ContentChange (u16 ''a'') [], Elapse 10, ContentChange (u16 ''ab'') []]
      (openView True 100))) \<le> 1
   \<and> timers (onContentChange (u16 ''abc'') []
        (run [ContentChange (u16 ''a'') [], Elapse 10, ContentChange (u16 ''ab'') []]
           (openView True 100))) = [(3, 110)]"
proof -
  have auto_on: "autoRefresh (run [ContentChange (u16 ''a'') [], Elapse 10,
      ContentChange (u16 ''ab'') []] (openView True 100))"
    by (simp add: openView_def onContentChange_def scheduleUpdate_def clearUpdateTimeout_def
        clearTimeout_def adaptiveDelay_def elapse_def fireDue_def updatePreview_def
        u16_def Let_def)
  have vals: "nextHandle (run [ContentChange (u16 ''a'') [], Elapse 10,
      ContentChange (u16 ''ab'') []] (openView True 100)) = 3
    \<and> clock (run [ContentChange (u16 ''a'') [], Elapse 10,
      ContentChange (u16 ''ab'') []] (openView True 100)) = 10
    \<and> refreshDelay (run [ContentChange (u16 ''a'') [], Elapse 10,
      ContentChange (u16 ''ab'') []] (openView True 100)) = 100"
    by (simp add: openView_def onContentChange_def scheduleUpdate_def clearUpdateTimeout_def
        clearTimeout_def adaptiveDelay_def elapse_def fireDue_def updatePreview_def
        u16_def Let_def)
  show ?thesis
    using debounce_one_pending_job [of "[ContentChange (u16 ''a'') [], Elapse 10,
        ContentChange (u16 ''ab'') []]" True 100 "u16 ''abc''" "[]"] auto_on vals
    by (simp add: adaptiveDelay_def u16_def)
qed

text \<open>
  C9. The delay that a content change computes is the configured refresh delay when
  markup and style together have at most 5000 characters, and the smaller of twice
  that delay and 1000 ms when they have more; with automatic refresh on, the job
  that \<open>onContentChange\<close> schedules is due that long after the change.
\<close>

theorem adaptive_delay_by_size:
  "adaptiveDelay delay html css =
     (if length html + length css \<le> 5000 then delay else min (2 * delay) 1000)
   \<and> (autoRefresh v \<longrightarrow>
        last (timers (onContentChange html css v)) =
          (nextHandle v,
           clock v + max 0 (if length html + length css \<le> 5000 then refreshDelay v
                            else min (2 * refreshDelay v) 1000)))"
  by (simp add: adaptiveDelay_def onContentChange_def scheduleUpdate_def Let_def
      clearUpdateTimeout_def clearTimeout_def mult.commute split: option.splits)

theorem adaptive_delay_by_size_witness:
  "adaptiveDelay 300 (replicate 5000 97) [] = 300
   \<and> adaptiveDelay 300 (replicate 4000 97) (replicate 1001 98) = 600
   \<and> adaptiveDelay 800 (replicate 5001 97) [] = 1000
   \<and> last (timers (onContentChange (replicate 5001 97) [] (openView True 300))) = (1, 600)"
proof -
  have on: "autoRefresh (openView True 300)" by (simp add: openView_def)
  show ?thesis
    using adaptive_delay_by_size [of 300 "replicate 5000 97" "[]" "openView True 300"]
      adaptive_delay_by_size [of 300 "replicate 4000 97" "replicate 1001 98" "openView True 300"]
      adaptive_delay_by_size [of 800 "replicate 5001 97" "[]" "openView True 300"]
      adaptive_delay_by_size [of 300 "replicate 5001 97" "[]" "openView True 300"] on
    by (simp add: openView_def)
qed

section \<open>Properties of the animation performance monitor\<close>

text \<open>
  C5, as claimed, fails. After a poll whose inspection throws no frame callback is
  pending, so the next frame records nothing although an animation is running; and
  a poll that throws at its second element has already recorded the first.
\<close>

theorem monitor_continues_counterexample:
  "pendingFrames (monitorFrame 0 QueryThrows (startMonitoring True newMonitor)) = []
   \<and> animations (monitorFrame 16 (Selected [AnimationName (u16 ''spin'')])
        (monitorFrame 0 QueryThrows (startMonitoring True newMonitor))) = []
   \<and> animations (monitorFrame 16 (Selected [AnimationName (u16 ''spin'')])
        (monitorFrame 0 (Selected []) (startMonitoring True newMonitor)))
        = [(u16 ''spin'', (16, 1))]
   \<and> animations (monitorFrame 0 (Selected [AnimationName (u16 ''spin''), StyleThrows])
        (startMonitoring True newMonitor)) = [(u16 ''spin'', (0, 1))]"
  by (simp add: monitorFrame_def startMonitoring_def newMonitor_def requestMonitorFrame_def
      monitorCallback_def recordElement_def u16_def)

lemma monitorFrame_idle: "pendingFrames m = [] \<Longrightarrow> monitorFrame now seen m = m"
  by (simp add: monitorFrame_def)

text \<open>
  C5, amended. When the inspection throws during a poll, the callback returns
  normally with the samples recorded up to the throw, and requests no further
  frame: neither the pending callbacks nor \<open>rafId\<close> change. A frame without a
  pending callback leaves the monitor as it is, so samples accumulate again only
  after \<open>startMonitoring\<close> has been called again.
\<close>

theorem monitor_poll_error_swallowed:
  assumes "inspectionThrows now seen m"
  shows "pendingFrames (monitorCallback now seen m) = pendingFrames m
    \<and> rafId (monitorCallback now seen m) = rafId m
    \<and> (seen = QueryThrows \<longrightarrow> animations (monitorCallback now seen m) = animations m)
    \<and> (\<forall>els. seen = Selected els \<longrightarrow>
          animations (monitorCallback now seen m) = fst (inspectElements now els (animations m)))
    \<and> (pendingFrames m = [] \<longrightarrow>
          monitorFrame later seen2 (monitorCallback now seen m) = monitorCallback now seen m)
    \<and> pendingFrames (startMonitoring True (monitorCallback now seen m))
        = pendingFrames m @ [nextFrame m]"
  using assms
  by (auto simp: inspectionThrows_def monitorCallback_def monitorFrame_def startMonitoring_def
      requestMonitorFrame_def split: frame_dom.splits prod.splits bool.splits)

theorem monitor_poll_error_swallowed_witness:
  "monitorCallback 0 (Selected [AnimationName (u16 ''spin''), StyleThrows])
      (newMonitor\<lparr>rafId := Some 1, nextFrame := 2\<rparr>)
     = \<lparr>animations = [(u16 ''spin'', (0, 1))], rafId = Some 1, pendingFrames = [], nextFrame = 2\<rparr>
   \<and> monitorFrame 16 (Selected [AnimationName (u16 ''spin'')])
        (monitorCallback 0 (Selected [AnimationName (u16 ''spin''), StyleThrows])
           (newMonitor\<lparr>rafId := Some 1, nextFrame := 2\<rparr>))
     = monitorCallback 0 (Selected [AnimationName (u16 ''spin''), StyleThrows])
           (newMonitor\<lparr>rafId := Some 1, nextFrame := 2\<rparr>)"
proof -
  have thr: "inspectionThrows 0 (Selected [AnimationName (u16 ''spin''), StyleThrows])
      (newMonitor\<lparr>rafId := Some 1, nextFrame := 2\<rparr>)"
    by (simp add: inspectionThrows_def newMonitor_def)
  have idle: "pendingFrames (newMonitor\<lparr>rafId := Some 1, nextFrame := 2\<rparr>) = []"
    by (simp add: newMonitor_def)
  have a: "monitorCallback 0 (Selected [AnimationName (u16 ''spin''), StyleThrows])
      (newMonitor\<lparr>rafId := Some 1, nextFrame := 2\<rparr>)
     = \<lparr>animations = [(u16 ''spin'', (0, 1))], rafId = Some 1, pendingFrames = [], nextFrame = 2\<rparr>"
    by (simp add: monitorCallback_def newMonitor_def recordElement_def u16_def)
  from monitor_poll_error_swallowed [OF thr, of 16 "Selected [AnimationName (u16 ''spin'')]"] idle
  have b: "monitorFrame 16 (Selected [AnimationName (u16 ''spin'')])
        (monitorCallback 0 (Selected [AnimationName (u16 ''spin''), StyleThrows])
           (newMonitor\<lparr>rafId := Some 1, nextFrame := 2\<rparr>))
     = monitorCallback 0 (Selected [AnimationName (u16 ''spin''), StyleThrows])
           (newMonitor\<lparr>rafId := Some 1, nextFrame := 2\<rparr>)"
    by blast
  from a b show ?thesis by (rule conjI)
qed

section \<open>Properties of the renderer\<close>

lemma effectsOn_render_Primary:
  "effectsOn Primary (render env later err content) = renderPreviewContent env err content"
  by (auto simp: effectsOn_def render_def updatePreviewFrame_def renderPreviewContent_def
      renderPreviewError_def renderPreviewContentToFrame_def
      split: frame_document.splits option.splits)

lemma effectsOn_render_Floating:
  "effectsOn Floating (render env later err content) =
     (if pipFrame env = None then []
      else renderPreviewContentToFrame Floating (pipFrame later) content)"
  by (auto simp: effectsOn_def render_def updatePreviewFrame_def renderPreviewContent_def
      renderPreviewError_def renderPreviewContentToFrame_def
      split: frame_document.splits option.splits)

lemma effectsOn_render_Fullscreen:
  "effectsOn Fullscreen (render env later err content) =
     (if fullscreenOverlay env = None then []
      else runDeferred later (FullscreenPush content))"
  by (auto simp: effectsOn_def render_def updatePreviewFrame_def renderPreviewContent_def
      renderPreviewError_def renderPreviewContentToFrame_def
      split: frame_document.splits option.splits)

lemma in_effectsOn: "e \<in> set (effectsOn (effectSink e) effects) \<longleftrightarrow> e \<in> set effects"
  by (simp add: effectsOn_def)

lemma wrote_to_frame_iff:
  "Wrote k content \<in> set (renderPreviewContentToFrame k frame content) \<longleftrightarrow> frame = Some Writable"
proof (cases frame)
  case None
  then show ?thesis by (simp add: renderPreviewContentToFrame_def)
next
  case (Some d)
  then show ?thesis by (cases d) (simp_all add: renderPreviewContentToFrame_def)
qed

lemma wrote_Floating_iff:
  "Wrote Floating content \<in> set (render env later err content)
     \<longleftrightarrow> pipFrame env \<noteq> None \<and> pipFrame later = Some Writable"
proof -
  have "Wrote Floating content \<in> set (render env later err content)
      \<longleftrightarrow> Wrote Floating content \<in> set (effectsOn Floating (render env later err content))"
    using in_effectsOn [of "Wrote Floating content" "render env later err content"] by simp
  also have "\<dots> \<longleftrightarrow> pipFrame env \<noteq> None \<and> pipFrame later = Some Writable"
    by (simp add: effectsOn_render_Floating wrote_to_frame_iff)
  finally show ?thesis .
qed

lemma wrote_Fullscreen_iff:
  "Wrote Fullscreen content \<in> set (render env later err content)
     \<longleftrightarrow> fullscreenOverlay env \<noteq> None \<and> fullscreenOverlay later = Some (Some Writable)"
proof -
  have push: "Wrote Fullscreen content \<in> set (runDeferred later (FullscreenPush content))
      \<longleftrightarrow> fullscreenOverlay later = Some (Some Writable)"
  proof (cases "fullscreenOverlay later")
    case None
    then show ?thesis by simp
  next
    case (Some overlay)
    then show ?thesis by (cases overlay) (simp_all add: wrote_to_frame_iff)
  qed
  have "Wrote Fullscreen content \<in> set (render env later err content)
      \<longleftrightarrow> Wrote Fullscreen content \<in> set (effectsOn Fullscreen (render env later err content))"
    using in_effectsOn [of "Wrote Fullscreen content" "render env later err content"] by simp
  also have "\<dots> \<longleftrightarrow> fullscreenOverlay env \<noteq> None
      \<and> Wrote Fullscreen content \<in> set (runDeferred later (FullscreenPush content))"
    by (simp add: effectsOn_render_Fullscreen)
  finally show ?thesis using push by simp
qed

text \<open>
  What holds of the fan-out. A push to the floating and to the fullscreen sink is
  deferred if and only if that sink is live at render time; a sink absent at render
  time sees no effect at all, neither a write nor an attempt; a sink receives the
  content if and only if it is live at render time and its document can be written
  when the deferred push runs; a document that raises gets the error caught and
  reported; and what happens on each sink depends on that sink alone, so a failure
  on one changes nothing on the others.
\<close>

lemma render_effects_by_sink:
  "(PipPush content \<in> set (snd (updatePreviewFrame env err content)) \<longleftrightarrow> pipFrame env \<noteq> None)
   \<and> (FullscreenPush content \<in> set (snd (updatePreviewFrame env err content))
        \<longleftrightarrow> fullscreenOverlay env \<noteq> None)
   \<and> (pipFrame env = None \<longrightarrow> effectsOn Floating (render env later err content) = [])
   \<and> (fullscreenOverlay env = None \<longrightarrow> effectsOn Fullscreen (render env later err content) = [])
   \<and> (Wrote Floating content \<in> set (render env later err content)
        \<longleftrightarrow> pipFrame env \<noteq> None \<and> pipFrame later = Some Writable)
   \<and> (Wrote Fullscreen content \<in> set (render env later err content)
        \<longleftrightarrow> fullscreenOverlay env \<noteq> None \<and> fullscreenOverlay later = Some (Some Writable))
   \<and> (previewFrame env = Raising \<longrightarrow>
        effectsOn Primary (render env later err content) = [ConsoleError Primary])
   \<and> (pipFrame env \<noteq> None \<and> pipFrame later = Some Raising \<longrightarrow>
        effectsOn Floating (render env later err content) = [ConsoleError Floating])
   \<and> (fullscreenOverlay env \<noteq> None \<and> fullscreenOverlay later = Some (Some Raising) \<longrightarrow>
        effectsOn Fullscreen (render env later err content) = [ConsoleError Fullscreen])
   \<and> (previewFrame env = previewFrame env' \<longrightarrow>
        effectsOn Primary (render env later err content)
          = effectsOn Primary (render env' later' err content))
   \<and> (pipFrame env = pipFrame env' \<and> pipFrame later = pipFrame later' \<longrightarrow>
        effectsOn Floating (render env later err content)
          = effectsOn Floating (render env' later' err content))
   \<and> (fullscreenOverlay env = fullscreenOverlay env'
        \<and> fullscreenOverlay later = fullscreenOverlay later' \<longrightarrow>
        effectsOn Fullscreen (render env later err content)
          = effectsOn Fullscreen (render env' later' err content))"
proof -
  have w1: "Wrote Floating content \<in> set (render env later err content)
        \<longleftrightarrow> pipFrame env \<noteq> None \<and> pipFrame later = Some Writable"
    by (rule wrote_Floating_iff)
  have w2: "Wrote Fullscreen content \<in> set (render env later err content)
        \<longleftrightarrow> fullscreenOverlay env \<noteq> None \<and> fullscreenOverlay later = Some (Some Writable)"
    by (rule wrote_Fullscreen_iff)
  have s: "(PipPush content \<in> set (snd (updatePreviewFrame env err content)) \<longleftrightarrow> pipFrame env \<noteq> None)
   \<and> (FullscreenPush content \<in> set (snd (updatePreviewFrame env err content))
        \<longleftrightarrow> fullscreenOverlay env \<noteq> None)"
    by (simp add: updatePreviewFrame_def)
  have p: "previewFrame env = Raising \<longrightarrow>
        effectsOn Primary (render env later err content) = [ConsoleError Primary]"
    by (simp add: effectsOn_render_Primary renderPreviewContent_def renderPreviewError_def)
  have f: "pipFrame env \<noteq> None \<and> pipFrame later = Some Raising \<longrightarrow>
        effectsOn Floating (render env later err content) = [ConsoleError Floating]"
    by (simp add: effectsOn_render_Floating renderPreviewContentToFrame_def)
  have g: "fullscreenOverlay env \<noteq> None \<and> fullscreenOverlay later = Some (Some Raising) \<longrightarrow>
        effectsOn Fullscreen (render env later err content) = [ConsoleError Fullscreen]"
    by (simp add: effectsOn_render_Fullscreen renderPreviewContentToFrame_def)
  have i1: "previewFrame env = previewFrame env' \<longrightarrow>
        effectsOn Primary (render env later err content)
          = effectsOn Primary (render env' later' err content)"
    by (auto simp: effectsOn_render_Primary renderPreviewContent_def renderPreviewError_def
        split: frame_document.splits)
  have i2: "pipFrame env = pipFrame env' \<and> pipFrame later = pipFrame later' \<longrightarrow>
        effectsOn Floating (render env later err content)
          = effectsOn Floating (render env' later' err content)"
    by (simp add: effectsOn_render_Floating)
  have i3: "fullscreenOverlay env = fullscreenOverlay env'
        \<and> fullscreenOverlay later = fullscreenOverlay later' \<longrightarrow>
        effectsOn Fullscreen (render env later err content)
          = effectsOn Fullscreen (render env' later' err content)"
    by (simp add: effectsOn_render_Fullscreen)
  show ?thesis
    using w1 w2 s p f g i1 i2 i3
    by (simp add: effectsOn_render_Floating effectsOn_render_Fullscreen)
qed

text \<open>
  When the overlay is removed between the render and its deferred push, the callback
  dereferences \<open>null\<close> outside any \<open>try\<close>, whatever the other sinks are.
\<close>

lemma fullscreen_overlay_removed:
  "fullscreenOverlay env \<noteq> None \<Longrightarrow> fullscreenOverlay later = None \<Longrightarrow>
     effectsOn Fullscreen (render env later err content) = [Uncaught Fullscreen]"
  by (simp add: effectsOn_render_Fullscreen)

text \<open>
  The spec's scenario: floating sink live, fullscreen sink absent. The render writes
  the primary and the floating sink and does nothing on the fullscreen sink; the
  same with a floating document that raises still writes the primary sink.
\<close>

lemma render_floating_live_fullscreen_absent:
  "render \<lparr>previewFrame = Writable, pipFrame = Some Writable, fullscreenOverlay = None\<rparr>
      \<lparr>previewFrame = Writable, pipFrame = Some Writable, fullscreenOverlay = None\<rparr>
      (u16 ''error'') (u16 ''<p>Hi</p>'')
     = [Wrote Primary (u16 ''<p>Hi</p>''), Wrote Floating (u16 ''<p>Hi</p>'')]
   \<and> effectsOn Fullscreen
       (render \<lparr>previewFrame = Writable, pipFrame = Some Writable, fullscreenOverlay = None\<rparr>
          \<lparr>previewFrame = Writable, pipFrame = Some Writable, fullscreenOverlay = None\<rparr>
          (u16 ''error'') (u16 ''<p>Hi</p>'')) = []
   \<and> effectsOn Floating
       (render \<lparr>previewFrame = Writable, pipFrame = Some Raising, fullscreenOverlay = None\<rparr>
          \<lparr>previewFrame = Writable, pipFrame = Some Raising, fullscreenOverlay = None\<rparr>
          (u16 ''error'') (u16 ''<p>Hi</p>'')) = [ConsoleError Floating]
   \<and> effectsOn Primary
       (render \<lparr>previewFrame = Writable, pipFrame = Some Raising, fullscreenOverlay = None\<rparr>
          \<lparr>previewFrame = Writable, pipFrame = Some Raising, fullscreenOverlay = None\<rparr>
          (u16 ''error'') (u16 ''<p>Hi</p>'')) = [Wrote Primary (u16 ''<p>Hi</p>'')]"
proof -
  let ?a = "\<lparr>previewFrame = Writable, pipFrame = Some Writable, fullscreenOverlay = None\<rparr>"
  let ?b = "\<lparr>previewFrame = Writable, pipFrame = Some Raising, fullscreenOverlay = None\<rparr>"
  have 1: "render ?a ?a (u16 ''error'') (u16 ''<p>Hi</p>'')
     = [Wrote Primary (u16 ''<p>Hi</p>''), Wrote Floating (u16 ''<p>Hi</p>'')]"
    by (simp add: render_def updatePreviewFrame_def renderPreviewContent_def
        renderPreviewContentToFrame_def)
  have 2: "effectsOn Fullscreen (render ?a ?a (u16 ''error'') (u16 ''<p>Hi</p>'')) = []"
    using render_effects_by_sink [of "u16 ''<p>Hi</p>''" ?a "u16 ''error''" ?a ?a ?a]
    by simp
  have 3: "effectsOn Floating (render ?b ?b (u16 ''error'') (u16 ''<p>Hi</p>''))
     = [ConsoleError Floating]"
    using render_effects_by_sink [of "u16 ''<p>Hi</p>''" ?b "u16 ''error''" ?b ?b ?b]
    by simp
  have 4: "effectsOn Primary (render ?b ?b (u16 ''error'') (u16 ''<p>Hi</p>''))
     = [Wrote Primary (u16 ''<p>Hi</p>'')]"
    by (simp add: effectsOn_render_Primary renderPreviewContent_def)
  from 1 2 3 4 show ?thesis by simp
qed

text \<open>
  C8. Claimed: a failure while writing one sink is caught and logged. The push to
  the fullscreen sink is not wrapped: its deferred callback reads
  \<open>this.fullscreenOverlay.querySelector\<close> outside any \<open>try\<close>. With all three sinks
  live at render time and the overlay removed (\<open>closeFullscreen\<close> sets it to
  \<open>null\<close>) before the deferred callback runs, the primary and the floating sink are
  written and the fullscreen push ends in an error that nothing catches. The same
  teardown of the floating sink is caught and reported, because there the frame is
  read inside the \<open>try\<close> of \<open>renderPreviewContentToFrame\<close>.
\<close>

theorem fullscreen_push_uncaught:
  "render \<lparr>previewFrame = Writable, pipFrame = Some Writable,
             fullscreenOverlay = Some (Some Writable)\<rparr>
      \<lparr>previewFrame = Writable, pipFrame = Some Writable, fullscreenOverlay = None\<rparr>
      (u16 ''error'') (u16 ''<p>Hi</p>'')
     = [Wrote Primary (u16 ''<p>Hi</p>''), Wrote Floating (u16 ''<p>Hi</p>''),
        Uncaught Fullscreen]
   \<and> render \<lparr>previewFrame = Writable, pipFrame = Some Writable,
               fullscreenOverlay = Some (Some Writable)\<rparr>
        \<lparr>previewFrame = Writable, pipFrame = None, fullscreenOverlay = Some (Some Writable)\<rparr>
        (u16 ''error'') (u16 ''<p>Hi</p>'')
       = [Wrote Primary (u16 ''<p>Hi</p>''), ConsoleError Floating,
          Wrote Fullscreen (u16 ''<p>Hi</p>'')]"
  by (simp add: render_def updatePreviewFrame_def renderPreviewContent_def
      renderPreviewContentToFrame_def)

section \<open>Matchers and replacement\<close>

lemma u16_Nil [simp]: "u16 [] = []"
  by (simp add: u16_def)

lemma u16_Cons [simp]: "u16 (c # cs) = of_char c # u16 cs"
  by (simp add: u16_def)

subsection \<open>The expressions as sequences of pieces\<close>

lemma seq_Some_right: "seq a Some = a"
  by (rule ext) (simp add: seq_def split: option.splits)

lemma seq_assoc: "seq (seq a b) c = seq a (seq b c)"
  by (rule ext) (simp add: seq_def split: option.splits)

lemma lit_split: "lit (p # q # w) = seq (lit [p]) (lit (q # w))"
proof
  fix s
  show "lit (p # q # w) s = seq (lit [p]) (lit (q # w)) s"
    by (cases s) (simp_all add: seq_def)
qed

lemma rx_exec_Nil: "rx_exec [] = Some"
  by (rule ext) simp

lemma rx_exec_Chr: "rx_exec (Chr p # ps) = seq (lit [p]) (rx_exec ps)"
proof
  fix s
  show "rx_exec (Chr p # ps) s = seq (lit [p]) (rx_exec ps) s"
    by (cases s) (simp_all add: seq_def)
qed

lemma rx_exec_until:
  assumes "\<And>c. ascii_upper c = ascii_upper x \<longleftrightarrow> c = x"
  shows "rx_exec (Star (Except x) # Chr x # ps) = seq (until x) (rx_exec ps)"
proof
  fix s
  show "rx_exec (Star (Except x) # Chr x # ps) s = seq (until x) (rx_exec ps) s"
    by (induction s) (auto simp: seq_def assms split: option.splits)
qed

lemma rx_exec_lazy: "rx_exec (LazyStar AnyChar # ps) = lazy_any (rx_exec ps)"
proof
  fix s
  show "rx_exec (LazyStar AnyChar # ps) s = lazy_any (rx_exec ps) s"
    by (induction s) (auto split: option.splits)
qed

lemma rx_exec_ws_star:
  assumes "\<And>c. is_ws c \<Longrightarrow> ascii_upper c \<noteq> ascii_upper p"
  shows "rx_exec (Star Space # Chr p # ps) = seq ws_star (rx_exec (Chr p # ps))"
proof
  fix s
  show "rx_exec (Star Space # Chr p # ps) s = seq ws_star (rx_exec (Chr p # ps)) s"
  proof (induction s)
    case Nil
    then show ?case by (simp add: seq_def ws_star_def)
  next
    case (Cons c cs)
    show ?case
    proof (cases "is_ws c")
      case True
      with assms have "ascii_upper c \<noteq> ascii_upper p" by simp
      with True Cons show ?thesis by (simp add: seq_def ws_star_def split: option.splits)
    next
      case False
      then show ?thesis by (simp add: seq_def ws_star_def)
    qed
  qed
qed

lemma rx_exec_ws_plus:
  assumes "\<And>c. is_ws c \<Longrightarrow> ascii_upper c \<noteq> ascii_upper p"
  shows "rx_exec (Plus Space # Chr p # ps) = seq ws_plus (rx_exec (Chr p # ps))"
proof
  fix s
  show "rx_exec (Plus Space # Chr p # ps) s = seq ws_plus (rx_exec (Chr p # ps)) s"
  proof (cases s)
    case Nil
    then show ?thesis by (simp add: seq_def ws_plus_def)
  next
    case (Cons c cs)
    with rx_exec_ws_star [OF assms, of ps] show ?thesis
      by (simp add: seq_def ws_plus_def ws_star_def)
  qed
qed

lemma upper_plain:
  "ascii_upper c = ascii_upper 62 \<longleftrightarrow> c = 62"
  "ascii_upper c = ascii_upper 41 \<longleftrightarrow> c = 41"
  by (auto simp: ascii_upper_def)

lemma ws_not_letter:
  "is_ws c \<Longrightarrow> ascii_upper c \<noteq> ascii_upper 117"
  "is_ws c \<Longrightarrow> ascii_upper c \<noteq> ascii_upper 40"
  "is_ws c \<Longrightarrow> ascii_upper c \<noteq> ascii_upper 58"
  by (auto simp: is_ws_def ascii_upper_def)

lemmas rx_exec_pieces =
  rx_exec_until [OF upper_plain(1)] rx_exec_until [OF upper_plain(2)] rx_exec_lazy
  rx_exec_ws_star [OF ws_not_letter(2)] rx_exec_ws_star [OF ws_not_letter(3)]
  rx_exec_ws_plus [OF ws_not_letter(1)]

lemma dangerousHTML_unfold:
  "dangerousHTML =
     [rx_element (u16 ''script''), rx_element (u16 ''iframe''), rx_element (u16 ''object''),
      rx_embed, rx_element (u16 ''form'')]"
  unfolding dangerousHTML_def chars_def rx_element_def rx_embed_def
  by (simp add: rx_exec_pieces rx_exec_Chr rx_exec_Nil lit_split seq_assoc seq_Some_right
      del: rx_exec.simps)

lemma dangerousCSS_unfold:
  "dangerousCSS =
     [rx_import, rx_word (u16 ''javascript'') 58, rx_word (u16 ''expression'') 40,
      rx_word (u16 ''behavior'') 58]"
  unfolding dangerousCSS_def chars_def rx_import_def rx_word_def
  by (simp add: rx_exec_pieces rx_exec_Chr rx_exec_Nil lit_split seq_assoc seq_Some_right
      del: rx_exec.simps)



lemma properD: "proper m \<Longrightarrow> m s = Some r \<Longrightarrow> \<exists>w. w \<noteq> [] \<and> s = w @ r"
  by (simp add: proper_def)

lemma proper_Nil: "proper m \<Longrightarrow> m [] = None"
  by (cases "m []") (auto dest: properD)

lemma replace_all_Nil: "proper m \<Longrightarrow> replace_all m rep [] = []"
  by (simp add: proper_Nil)

lemma replace_all_Nil_None: "m [] = None \<Longrightarrow> replace_all m rep [] = []"
  by simp

lemma replace_all_miss: "m (c # cs) = None \<Longrightarrow> replace_all m rep (c # cs) = c # replace_all m rep cs"
  by simp

lemma replace_all_hit:
  assumes "proper m" and "m (c # cs) = Some r"
  shows "replace_all m rep (c # cs) = rep @ replace_all m rep r"
proof -
  from properD [OF assms] obtain w where "w \<noteq> []" and "c # cs = w @ r" by blast
  then have "length r \<le> length cs"
    by (cases w) auto
  with assms(2) show ?thesis by simp
qed

text \<open>Induction along a replacement pass of a proper matcher.\<close>

lemma replace_all_induct [consumes 1, case_names Nil Miss Hit]:
  assumes "proper m"
    and "P []"
    and "\<And>c cs. m (c # cs) = None \<Longrightarrow> P cs \<Longrightarrow> P (c # cs)"
    and "\<And>c cs w r. m (c # cs) = Some r \<Longrightarrow> w \<noteq> [] \<Longrightarrow> c # cs = w @ r \<Longrightarrow> P r \<Longrightarrow> P (c # cs)"
  shows "P s"
proof (induction s rule: length_induct)
  case (1 s)
  show ?case
  proof (cases s)
    case Nil
    with assms(2) show ?thesis by simp
  next
    case (Cons c cs)
    show ?thesis
    proof (cases "m (c # cs)")
      case None
      from 1 Cons have "P cs" by simp
      with None Cons assms(3) show ?thesis by simp
    next
      case (Some r)
      from properD [OF assms(1) Some] obtain w where w: "w \<noteq> []" "c # cs = w @ r" by blast
      then have "length r < length s" using Cons
        by (metis append_eq_conv_conj length_drop length_greater_0_conv diff_less length_Cons zero_less_Suc)
      with 1 have "P r" by simp
      with Some w Cons assms(4) show ?thesis by simp
    qed
  qed
qed

subsection \<open>The pieces cut a prefix off the text\<close>

lemma lit_cut: "lit ps s = Some r \<Longrightarrow> \<exists>w. s = w @ r \<and> length w = length ps"
proof (induction ps s rule: lit.induct)
  case (1 s)
  then show ?case by simp
next
  case (2 p ps)
  then show ?case by simp
next
  case (3 p ps c cs)
  from "3.prems" have eq: "ascii_upper c = ascii_upper p" and rest: "lit ps cs = Some r"
    by (simp_all split: if_splits)
  from "3.IH" [OF eq rest] obtain w where "cs = w @ r" "length w = length ps" by blast
  then have "c # cs = (c # w) @ r \<and> length (c # w) = length (p # ps)" by simp
  then show ?case by blast
qed

lemma until_cut: "until x s = Some r \<Longrightarrow> \<exists>w. s = w @ x # r \<and> x \<notin> set w"
proof (induction s)
  case Nil
  then show ?case by simp
next
  case (Cons c cs)
  show ?case
  proof (cases "c = x")
    case True
    with Cons.prems have "c # cs = [] @ x # r" by simp
    then show ?thesis by (metis empty_iff list.set(1))
  next
    case False
    with Cons obtain w where "cs = w @ x # r" "x \<notin> set w" by auto
    with False have "c # cs = (c # w) @ x # r \<and> x \<notin> set (c # w)" by simp
    then show ?thesis by blast
  qed
qed

lemma until_iff: "until x s \<noteq> None \<longleftrightarrow> x \<in> set s"
  by (induction s) auto

lemma until_append: "x \<in> set w \<Longrightarrow> \<exists>w'. until x (w @ r) = Some (w' @ r)"
  by (induction w) auto

lemma lazy_any_cut:
  assumes "\<And>s r. k s = Some r \<Longrightarrow> \<exists>w. s = w @ r"
  shows "lazy_any k s = Some r \<Longrightarrow> \<exists>w. s = w @ r"
proof (induction s)
  case Nil
  then have "k [] = Some r" by simp
  from assms [OF this] show ?case .
next
  case (Cons c cs)
  show ?case
  proof (cases "k (c # cs)")
    case None
    with Cons obtain w where "cs = w @ r" by auto
    then have "c # cs = (c # w) @ r" by simp
    then show ?thesis by blast
  next
    case (Some r')
    with Cons.prems have "r' = r" by simp
    with Some assms show ?thesis by blast
  qed
qed

lemma lazy_any_Cons: "lazy_any k cs \<noteq> None \<Longrightarrow> lazy_any k (c # cs) \<noteq> None"
  by (cases "k (c # cs)") auto

lemma lazy_any_append: "lazy_any k s \<noteq> None \<Longrightarrow> lazy_any k (w @ s) \<noteq> None"
proof (induction w)
  case Nil
  then show ?case by simp
next
  case (Cons c w)
  then have "lazy_any k (w @ s) \<noteq> None" by simp
  then show ?case unfolding append_Cons by (rule lazy_any_Cons)
qed

lemma rx_test_Cons: "rx_test m cs \<Longrightarrow> rx_test m (c # cs)"
  by simp

lemma rx_test_append: "rx_test m s \<Longrightarrow> rx_test m (w @ s)"
  by (induction w) auto


subsection \<open>Matches in front of a replaced text\<close>

declare replace_all.simps [simp del]

declare replace_all_miss [simp]

lemma cuts_with_proper: "cuts_with x m \<Longrightarrow> proper m"
  unfolding cuts_with_def proper_def by fastforce

lemma cuts_withD: "cuts_with x m \<Longrightarrow> m s = Some r \<Longrightarrow> \<exists>w. x \<in> set w \<and> s = w @ r"
  by (simp add: cuts_with_def)

lemma pulls_backD:
  "pulls_back m rep k \<Longrightarrow> k (replace_all m rep s) = Some r \<Longrightarrow>
     \<exists>s'. k s = Some s' \<and> r = replace_all m rep s'"
  by (simp add: pulls_back_def)

lemma survivesD: "survives m rep k \<Longrightarrow> k (replace_all m rep s) \<noteq> None \<Longrightarrow> k s \<noteq> None"
  by (simp add: survives_def)

lemma pulls_back_survives: "pulls_back m rep k \<Longrightarrow> survives m rep k"
  unfolding survives_def by (metis pulls_backD not_Some_eq)

lemma seq_Some: "seq a b s = Some r \<longleftrightarrow> (\<exists>t. a s = Some t \<and> b t = Some r)"
  by (simp add: seq_def split: option.splits)

lemma seq_not_None: "seq a b s \<noteq> None \<longleftrightarrow> (\<exists>t. a s = Some t \<and> b t \<noteq> None)"
  by (simp add: seq_def split: option.splits)

lemma pulls_back_seq:
  assumes "pulls_back m rep a" and "pulls_back m rep b"
  shows "pulls_back m rep (seq a b)"
  unfolding pulls_back_def
proof (intro allI impI)
  fix s r
  assume "seq a b (replace_all m rep s) = Some r"
  then obtain t where t: "a (replace_all m rep s) = Some t" and r: "b t = Some r"
    by (auto simp: seq_Some)
  from pulls_backD [OF assms(1) t] obtain s1 where s1: "a s = Some s1" "t = replace_all m rep s1"
    by blast
  from pulls_backD [OF assms(2)] r s1 obtain s2 where "b s1 = Some s2" "r = replace_all m rep s2"
    by blast
  with s1 show "\<exists>s'. seq a b s = Some s' \<and> r = replace_all m rep s'"
    by (auto simp: seq_Some)
qed

lemma survives_seq:
  assumes "pulls_back m rep a" and "survives m rep b"
  shows "survives m rep (seq a b)"
  unfolding survives_def
proof (intro allI impI)
  fix s
  assume "seq a b (replace_all m rep s) \<noteq> None"
  then have "\<exists>t. a (replace_all m rep s) = Some t \<and> b t \<noteq> None"
    by (simp only: seq_not_None)
  then obtain t where t: "a (replace_all m rep s) = Some t" and r: "b t \<noteq> None"
    by blast
  from pulls_backD [OF assms(1) t] obtain s1 where s1: "a s = Some s1" "t = replace_all m rep s1"
    by blast
  with r survivesD [OF assms(2)] have "b s1 \<noteq> None" by blast
  with s1 show "seq a b s \<noteq> None"
    by (simp add: seq_def)
qed

lemma pulls_back_lit:
  assumes "proper m" and "\<forall>p\<in>set ps. ascii_upper p \<noteq> ascii_upper h"
  shows "pulls_back m (h # rep) (lit ps)"
  unfolding pulls_back_def
proof (intro allI impI)
  fix s r
  assume "lit ps (replace_all m (h # rep) s) = Some r"
  with assms(2) show "\<exists>s'. lit ps s = Some s' \<and> r = replace_all m (h # rep) s'"
  proof (induction ps arbitrary: s)
    case Nil
    then show ?case by simp
  next
    case (Cons p ps)
    show ?case
    proof (cases s)
      case Nil
      with Cons.prems assms(1) show ?thesis by (simp add: replace_all_Nil)
    next
      case s: (Cons c cs)
      show ?thesis
      proof (cases "m (c # cs)")
        case None
        with Cons.prems(2) s have c: "ascii_upper c = ascii_upper p"
          and rest: "lit ps (replace_all m (h # rep) cs) = Some r"
          by (simp_all split: if_splits)
        from Cons.prems(1) have "\<forall>p\<in>set ps. ascii_upper p \<noteq> ascii_upper h" by simp
        from Cons.IH [OF this rest] c s show ?thesis by simp
      next
        case (Some r0)
        from replace_all_hit [OF assms(1) Some] Cons.prems s show ?thesis
          by (auto split: if_splits)
      qed
    qed
  qed
qed

lemma dropWhile_replace_all:
  assumes "proper m" and "starts_solid m" and "\<not> is_ws h"
  shows "dropWhile is_ws (replace_all m (h # rep) s) = replace_all m (h # rep) (dropWhile is_ws s)"
proof (induction s)
  case Nil
  then show ?case by (simp add: replace_all_Nil [OF assms(1)])
next
  case (Cons c cs)
  show ?case
  proof (cases "m (c # cs)")
    case None
    with Cons show ?thesis by simp
  next
    case (Some r)
    with assms(2) have "\<not> is_ws c" by (auto simp: starts_solid_def)
    with replace_all_hit [OF assms(1) Some] assms(3) show ?thesis by simp
  qed
qed

lemma pulls_back_ws_star:
  assumes "proper m" and "starts_solid m" and "\<not> is_ws h"
  shows "pulls_back m (h # rep) ws_star"
  unfolding pulls_back_def ws_star_def
  by (simp add: dropWhile_replace_all [OF assms])

lemma pulls_back_ws_plus:
  assumes "proper m" and "starts_solid m" and "\<not> is_ws h"
  shows "pulls_back m (h # rep) ws_plus"
  unfolding pulls_back_def
proof (intro allI impI)
  fix s r
  assume a: "ws_plus (replace_all m (h # rep) s) = Some r"
  show "\<exists>s'. ws_plus s = Some s' \<and> r = replace_all m (h # rep) s'"
  proof (cases s)
    case Nil
    with a assms(1) show ?thesis by (simp add: replace_all_Nil ws_plus_def)
  next
    case (Cons c cs)
    show ?thesis
    proof (cases "m (c # cs)")
      case None
      with a Cons show ?thesis
        by (auto simp: ws_plus_def dropWhile_replace_all [OF assms] split: if_splits)
    next
      case (Some r0)
      from replace_all_hit [OF assms(1) Some] a Cons assms(3) show ?thesis
        by (simp add: ws_plus_def)
    qed
  qed
qed

lemma set_replace_all:
  assumes "proper m"
  shows "set (replace_all m rep s) \<subseteq> set s \<union> set rep"
  using assms
proof (induction s rule: replace_all_induct)
  case Nil
  then show ?case by (simp add: replace_all_Nil [OF assms])
next
  case (Miss c cs)
  from Miss(2) have "set (c # replace_all m rep cs) \<subseteq> set (c # cs) \<union> set rep"
    by (simp add: subset_iff)
  with Miss(1) show ?case by simp
next
  case (Hit c cs w r)
  have eq: "replace_all m rep (c # cs) = rep @ replace_all m rep r"
    by (rule replace_all_hit [OF assms Hit(1)])
  have "set (c # cs) = set w \<union> set r"
    by (simp only: Hit(3) set_append)
  with Hit(4) have "set (rep @ replace_all m rep r) \<subseteq> set (c # cs) \<union> set rep"
    by (simp only: set_append) blast
  then show ?case by (simp only: eq)
qed

lemma survives_until_absent:
  assumes "proper m" and "x \<notin> set rep"
  shows "survives m rep (until x)"
  unfolding survives_def until_iff
  using set_replace_all [OF assms(1)] assms(2) by blast

lemma survives_until_present:
  assumes "cuts_with x m"
  shows "survives m rep (until x)"
  unfolding survives_def until_iff
proof (intro allI impI)
  fix s
  have p: "proper m" by (rule cuts_with_proper [OF assms])
  from p show "x \<in> set (replace_all m rep s) \<Longrightarrow> x \<in> set s"
  proof (induction s rule: replace_all_induct)
    case Nil
    then show ?case by (simp add: replace_all_Nil [OF p])
  next
    case (Miss c cs)
    then show ?case by auto
  next
    case (Hit c cs w r)
    from cuts_withD [OF assms Hit(1)] obtain w' where "x \<in> set w'" "c # cs = w' @ r" by blast
    then have "x \<in> set (w' @ r)" "set (c # cs) = set (w' @ r)" by simp_all
    then show ?case by blast
  qed
qed

lemma lit_Cons_not_None:
  "lit (a # q) (c # cs) \<noteq> None \<longleftrightarrow> ascii_upper c = ascii_upper a \<and> lit q cs \<noteq> None"
  by simp

lemma survives_lazy_lit:
  assumes "proper m"
    and "\<forall>p\<in>set q. ascii_upper p \<noteq> ascii_upper h"
    and host: "\<And>t. lazy_any (lit (a # q)) (h # rep @ t) = lazy_any (lit (a # q)) t"
  shows "survives m (h # rep) (lazy_any (lit (a # q)))"
  unfolding survives_def
proof (intro allI impI)
  fix s
  from assms(1)
  show "lazy_any (lit (a # q)) (replace_all m (h # rep) s) \<noteq> None
          \<Longrightarrow> lazy_any (lit (a # q)) s \<noteq> None"
  proof (induction s rule: replace_all_induct)
    case Nil
    then show ?case by (simp add: replace_all_Nil [OF assms(1)])
  next
    case (Miss c cs)
    show ?case
    proof (cases "lit (a # q) (c # replace_all m (h # rep) cs)")
      case None
      with Miss have "lazy_any (lit (a # q)) cs \<noteq> None" by simp
      then show ?thesis by (rule lazy_any_Cons)
    next
      case (Some r)
      then have c: "ascii_upper c = ascii_upper a"
        and rest: "lit q (replace_all m (h # rep) cs) = Some r"
        by (simp_all split: if_splits)
      from pulls_backD [OF pulls_back_lit [OF assms(1,2)] rest] c
      have "lit (a # q) (c # cs) \<noteq> None" by auto
      then show ?thesis by (cases "lit (a # q) (c # cs)") (simp_all del: lit.simps)
    qed
  next
    case (Hit c cs w r)
    from replace_all_hit [OF assms(1) Hit(1)] Hit(5) host
    have "lazy_any (lit (a # q)) (replace_all m (h # rep) r) \<noteq> None" by simp
    from Hit(4) [OF this] have "lazy_any (lit (a # q)) (w @ r) \<noteq> None"
      by (rule lazy_any_append)
    with Hit(3) show ?case by simp
  qed
qed

lemma survives_until_lazy:
  assumes "cuts_with x m"
    and "survives m rep (lazy_any k)"
    and host: "\<And>t. until x (rep @ t) = Some t"
  shows "survives m rep (seq (until x) (lazy_any k))"
  unfolding survives_def
proof (intro allI impI)
  fix s
  have p: "proper m" by (rule cuts_with_proper [OF assms(1)])
  from p
  show "seq (until x) (lazy_any k) (replace_all m rep s) \<noteq> None
          \<Longrightarrow> seq (until x) (lazy_any k) s \<noteq> None"
  proof (induction s rule: replace_all_induct)
    case Nil
    then show ?case by (simp add: replace_all_Nil [OF p])
  next
    case (Miss c cs)
    show ?case
    proof (cases "c = x")
      case True
      with Miss have "lazy_any k (replace_all m rep cs) \<noteq> None" by (simp add: seq_def)
      from survivesD [OF assms(2) this] True show ?thesis by (simp add: seq_def)
    next
      case False
      with Miss show ?thesis by (simp add: seq_def)
    qed
  next
    case (Hit c cs w r)
    from replace_all_hit [OF p Hit(1)] Hit(5) host
    have "lazy_any k (replace_all m rep r) \<noteq> None" by (simp add: seq_def)
    from survivesD [OF assms(2) this] have r: "lazy_any k r \<noteq> None" .
    from cuts_withD [OF assms(1) Hit(1)] obtain w' where w': "x \<in> set w'" "c # cs = w' @ r"
      by blast
    from until_append [OF w'(1)] obtain w2 where "until x (w' @ r) = Some (w2 @ r)" by blast
    with lazy_any_append [OF r, of w2] w'(2) show ?case by (simp add: seq_def)
  qed
qed

subsection \<open>Matches anywhere in a replaced text\<close>

lemma rx_test_replace_all:
  assumes "proper m"
    and "A [] = None"
    and front: "\<And>c cs. A (c # replace_all m rep cs) \<noteq> None \<Longrightarrow> A (c # cs) \<noteq> None"
    and host: "\<And>t. rx_test A (rep @ t) = rx_test A t"
  shows "rx_test A (replace_all m rep s) \<Longrightarrow> rx_test A s"
  using assms(1)
proof (induction s rule: replace_all_induct)
  case Nil
  then show ?case by (simp add: replace_all_Nil [OF assms(1)] assms(2))
next
  case (Miss c cs)
  show ?case
  proof (cases "A (c # replace_all m rep cs)")
    case None
    with Miss have "rx_test A cs" by simp
    then show ?thesis by simp
  next
    case (Some r)
    then have "A (c # replace_all m rep cs) \<noteq> None" by simp
    from front [OF this] show ?thesis by simp
  qed
next
  case (Hit c cs w r)
  from replace_all_hit [OF assms(1) Hit(1)] Hit(5) host
  have "rx_test A (replace_all m rep r)" by simp
  from Hit(4) [OF this] have "rx_test A (w @ r)" by (rule rx_test_append)
  with Hit(3) show ?case by simp
qed

lemma rx_test_replace_self:
  assumes "proper A"
    and front: "\<And>c cs. A (c # replace_all A rep cs) \<noteq> None \<Longrightarrow> A (c # cs) \<noteq> None"
    and host: "\<And>t. rx_test A (rep @ t) = rx_test A t"
  shows "\<not> rx_test A (replace_all A rep s)"
  using assms(1)
proof (induction s rule: replace_all_induct)
  case Nil
  then show ?case by (simp add: replace_all_Nil [OF assms(1)] proper_Nil [OF assms(1)])
next
  case (Miss c cs)
  have "A (c # replace_all A rep cs) = None"
  proof (rule ccontr)
    assume "A (c # replace_all A rep cs) \<noteq> None"
    from front [OF this] Miss(1) show False by simp
  qed
  with Miss show ?case by simp
next
  case (Hit c cs w r)
  from replace_all_hit [OF assms(1) Hit(1)] Hit(4) host show ?case by simp
qed

lemma front_survives:
  assumes "survives m rep (seq (lit nm) T)"
  shows "seq (lit (a # nm)) T (c # replace_all m rep cs) \<noteq> None
           \<Longrightarrow> seq (lit (a # nm)) T (c # cs) \<noteq> None"
proof -
  have eq: "seq (lit (a # nm)) T (c # t) =
      (if ascii_upper c = ascii_upper a then seq (lit nm) T t else None)" for t
    by (simp add: seq_def)
  assume "seq (lit (a # nm)) T (c # replace_all m rep cs) \<noteq> None"
  then have "ascii_upper c = ascii_upper a" and "seq (lit nm) T (replace_all m rep cs) \<noteq> None"
    by (simp_all add: eq split: if_splits)
  with survivesD [OF assms] show ?thesis by (simp add: eq)
qed

section \<open>The markup patterns\<close>

lemma rx_element_unfold:
  "rx_element name =
     seq (lit (60 # name)) (seq (until 62) (lazy_any (lit (60 # 47 # name @ [62]))))"
  by (simp add: rx_element_def)

lemma rx_embed_unfold: "rx_embed = seq (lit (60 # u16 ''embed'')) (until 62)"
  by (simp add: rx_embed_def)

lemma unsafeElement_unfold:
  "unsafeElement = 60 # u16 ''!-- Unsafe element removed for security -->''"
  by (simp add: unsafeElement_def)

lemma cuts_with_element: "cuts_with 62 (rx_element name)"
  unfolding cuts_with_def
proof (intro allI impI)
  fix s r
  assume "rx_element name s = Some r"
  then obtain t1 t2 where t1: "lit (60 # name) s = Some t1"
    and t2: "until 62 t1 = Some t2"
    and r: "lazy_any (lit (60 # 47 # name @ [62])) t2 = Some r"
    by (auto simp: rx_element_unfold seq_Some)
  from lit_cut [OF t1] obtain w0 where w0: "s = w0 @ t1" by blast
  from until_cut [OF t2] obtain w1 where w1: "t1 = w1 @ 62 # t2" by blast
  from lazy_any_cut [OF _ r] lit_cut obtain w2 where w2: "t2 = w2 @ r" by blast
  from w0 w1 w2 have "s = (w0 @ w1 @ 62 # w2) @ r" by simp
  moreover have "62 \<in> set (w0 @ w1 @ 62 # w2)" by simp
  ultimately show "\<exists>w. 62 \<in> set w \<and> s = w @ r" by blast
qed

lemma cuts_with_embed: "cuts_with 62 rx_embed"
  unfolding cuts_with_def
proof (intro allI impI)
  fix s r
  assume "rx_embed s = Some r"
  then obtain t1 where t1: "lit (60 # u16 ''embed'') s = Some t1"
    and r: "until 62 t1 = Some r"
    by (auto simp: rx_embed_unfold seq_Some)
  from lit_cut [OF t1] obtain w0 where w0: "s = w0 @ t1" by blast
  from until_cut [OF r] obtain w1 where w1: "t1 = w1 @ 62 # r" by blast
  from w0 w1 have "s = (w0 @ w1 @ [62]) @ r" by simp
  moreover have "62 \<in> set (w0 @ w1 @ [62])" by simp
  ultimately show "\<exists>w. 62 \<in> set w \<and> s = w @ r" by blast
qed

text \<open>No pattern can start or end inside the comment that replaces a match.\<close>

lemma host_close:
  "lazy_any (lit (60 # 47 # q)) (60 # u16 ''!-- Unsafe element removed for security -->'' @ t)
     = lazy_any (lit (60 # 47 # q)) t"
  by (simp add: ascii_upper_def)

lemma host_until: "until 62 (unsafeElement @ t) = Some t"
  by (simp add: unsafeElement_def)

lemma host_open:
  assumes "ascii_upper n \<noteq> 33"
  shows "rx_test (seq (lit (60 # n # ns)) T) (unsafeElement @ t)
           = rx_test (seq (lit (60 # n # ns)) T) t"
  using assms by (simp add: unsafeElement_def seq_def ascii_upper_def)

lemma element_tail_survives:
  assumes "cuts_with 62 m" and "\<forall>p\<in>set name. ascii_upper p \<noteq> 60"
  shows "survives m unsafeElement
           (seq (lit name) (seq (until 62) (lazy_any (lit (60 # 47 # name @ [62])))))"
proof -
  have p: "proper m" by (rule cuts_with_proper [OF assms(1)])
  have up: "ascii_upper 60 = 60" by (simp add: ascii_upper_def)
  have q: "\<forall>p\<in>set (47 # name @ [62]). ascii_upper p \<noteq> ascii_upper 60"
    using assms(2) by (simp add: ascii_upper_def)
  have n: "\<forall>p\<in>set name. ascii_upper p \<noteq> ascii_upper 60"
    using assms(2) up by simp
  have "survives m unsafeElement (lazy_any (lit (60 # 47 # name @ [62])))"
    unfolding unsafeElement_unfold
    by (rule survives_lazy_lit [OF p q]) (rule host_close)
  then have "survives m unsafeElement (seq (until 62) (lazy_any (lit (60 # 47 # name @ [62]))))"
    by (rule survives_until_lazy [OF assms(1)]) (rule host_until)
  moreover have "pulls_back m unsafeElement (lit name)"
    unfolding unsafeElement_unfold by (rule pulls_back_lit [OF p n])
  ultimately show ?thesis by (rule survives_seq [rotated])
qed

lemma embed_tail_survives:
  assumes "cuts_with 62 m"
  shows "survives m unsafeElement (seq (lit (u16 ''embed'')) (until 62))"
proof -
  have p: "proper m" by (rule cuts_with_proper [OF assms(1)])
  have n: "\<forall>p\<in>set (u16 ''embed''). ascii_upper p \<noteq> ascii_upper 60"
    by (simp add: ascii_upper_def)
  have "pulls_back m unsafeElement (lit (u16 ''embed''))"
    unfolding unsafeElement_unfold by (rule pulls_back_lit [OF p n])
  then show ?thesis
    by (rule survives_seq) (rule survives_until_present [OF assms])
qed

text \<open>
  A name is \<open>plain\<close> when it is not empty, does not start with \<open>!\<close> and has no
  \<open><\<close> in it: the names of the five elements are.
\<close>

lemma element_kept_free:
  assumes "cuts_with 62 m" and "ascii_upper n \<noteq> 33" and "\<forall>p\<in>set (n # ns). ascii_upper p \<noteq> 60"
    and "\<not> rx_test (rx_element (n # ns)) s"
  shows "\<not> rx_test (rx_element (n # ns)) (replace_all m unsafeElement s)"
proof
  assume t: "rx_test (rx_element (n # ns)) (replace_all m unsafeElement s)"
  have "rx_test (rx_element (n # ns)) s"
  proof (rule rx_test_replace_all [OF cuts_with_proper [OF assms(1)] _ _ _ t])
    show "rx_element (n # ns) [] = None" by (simp add: rx_element_unfold seq_def)
  next
    fix c cs
    assume "rx_element (n # ns) (c # replace_all m unsafeElement cs) \<noteq> None"
    then show "rx_element (n # ns) (c # cs) \<noteq> None"
      unfolding rx_element_unfold
      by (rule front_survives [OF element_tail_survives [OF assms(1,3)]])
  next
    fix t
    show "rx_test (rx_element (n # ns)) (unsafeElement @ t) = rx_test (rx_element (n # ns)) t"
      unfolding rx_element_unfold by (rule host_open [OF assms(2)])
  qed
  with assms(4) show False by simp
qed

lemma element_self_free:
  assumes "ascii_upper n \<noteq> 33" and "\<forall>p\<in>set (n # ns). ascii_upper p \<noteq> 60"
  shows "\<not> rx_test (rx_element (n # ns)) (replace_all (rx_element (n # ns)) unsafeElement s)"
proof (rule rx_test_replace_self [OF cuts_with_proper [OF cuts_with_element]])
  fix c cs
  assume "rx_element (n # ns) (c # replace_all (rx_element (n # ns)) unsafeElement cs) \<noteq> None"
  then show "rx_element (n # ns) (c # cs) \<noteq> None"
    unfolding rx_element_unfold
    by (rule front_survives [OF element_tail_survives [OF cuts_with_element [unfolded rx_element_unfold] assms(2)]])
next
  fix t
  show "rx_test (rx_element (n # ns)) (unsafeElement @ t) = rx_test (rx_element (n # ns)) t"
    unfolding rx_element_unfold by (rule host_open [OF assms(1)])
qed

lemma embed_kept_free:
  assumes "cuts_with 62 m" and "\<not> rx_test rx_embed s"
  shows "\<not> rx_test rx_embed (replace_all m unsafeElement s)"
proof
  assume t: "rx_test rx_embed (replace_all m unsafeElement s)"
  have "rx_test rx_embed s"
  proof (rule rx_test_replace_all [OF cuts_with_proper [OF assms(1)] _ _ _ t])
    show "rx_embed [] = None" by (simp add: rx_embed_unfold seq_def)
  next
    fix c cs
    assume "rx_embed (c # replace_all m unsafeElement cs) \<noteq> None"
    then show "rx_embed (c # cs) \<noteq> None"
      unfolding rx_embed_unfold
      by (rule front_survives [OF embed_tail_survives [OF assms(1)]])
  next
    fix t
    show "rx_test rx_embed (unsafeElement @ t) = rx_test rx_embed t"
      unfolding rx_embed_unfold u16_Cons
      by (rule host_open) (simp add: ascii_upper_def)
  qed
  with assms(2) show False by simp
qed

lemma embed_self_free: "\<not> rx_test rx_embed (replace_all rx_embed unsafeElement s)"
proof (rule rx_test_replace_self [OF cuts_with_proper [OF cuts_with_embed]])
  fix c cs
  assume "rx_embed (c # replace_all rx_embed unsafeElement cs) \<noteq> None"
  then show "rx_embed (c # cs) \<noteq> None"
    unfolding rx_embed_unfold
    by (rule front_survives [OF embed_tail_survives [OF cuts_with_embed [unfolded rx_embed_unfold]]])
next
  fix t
  show "rx_test rx_embed (unsafeElement @ t) = rx_test rx_embed t"
    unfolding rx_embed_unfold u16_Cons
    by (rule host_open) (simp add: ascii_upper_def)
qed

section \<open>Sanitizing twice\<close>

lemma js_trim_Nil_iff: "js_trim s = [] \<longleftrightarrow> (\<forall>c\<in>set s. is_ws c)"
proof
  assume "js_trim s = []"
  then have all: "\<forall>c\<in>set (dropWhile is_ws s). is_ws c"
    by (simp add: js_trim_def)
  have "dropWhile is_ws s = []"
  proof (rule ccontr)
    assume ne: "dropWhile is_ws s \<noteq> []"
    then have "\<not> is_ws (hd (dropWhile is_ws s))" by (rule hd_dropWhile)
    moreover from ne all have "is_ws (hd (dropWhile is_ws s))" by simp
    ultimately show False by simp
  qed
  then show "\<forall>c\<in>set s. is_ws c" by simp
next
  assume "\<forall>c\<in>set s. is_ws c"
  then have "dropWhile is_ws s = []" by (simp only: dropWhile_eq_Nil_conv)
  then show "js_trim s = []" by (simp only: js_trim_def rev.simps dropWhile.simps)
qed

lemma replace_all_blank:
  assumes "proper m" and "\<not> is_ws h"
  shows "\<forall>c\<in>set (replace_all m (h # rep) s). is_ws c \<Longrightarrow> replace_all m (h # rep) s = s"
  using assms(1)
proof (induction s rule: replace_all_induct)
  case Nil
  then show ?case by (simp add: replace_all_Nil [OF assms(1)])
next
  case (Miss c cs)
  then show ?case by simp
next
  case (Hit c cs w r)
  from replace_all_hit [OF assms(1) Hit(1)] Hit(5) assms(2) show ?case by simp
qed

lemma removeMatches_free: "\<not> rx_test p s \<Longrightarrow> removeMatches rep s p = s"
  by (simp add: removeMatches_def)

lemma removeMatches_not_blank:
  assumes "proper p" and "\<not> is_ws h" and "js_trim s \<noteq> []"
  shows "js_trim (removeMatches (h # rep) s p) \<noteq> []"
proof
  assume "js_trim (removeMatches (h # rep) s p) = []"
  then have all: "\<forall>c\<in>set (removeMatches (h # rep) s p). is_ws c"
    by (simp add: js_trim_Nil_iff)
  have "removeMatches (h # rep) s p = s"
  proof (cases "rx_test p s")
    case True
    with all have "\<forall>c\<in>set (replace_all p (h # rep) s). is_ws c"
      by (simp add: removeMatches_def)
    from replace_all_blank [OF assms(1,2) this] True show ?thesis
      by (simp add: removeMatches_def)
  next
    case False
    then show ?thesis by (rule removeMatches_free)
  qed
  with all assms(3) show False by (simp add: js_trim_Nil_iff)
qed

lemma foldl_removeMatches_id:
  "\<forall>p\<in>set ps. \<not> rx_test p s \<Longrightarrow> foldl (removeMatches rep) s ps = s"
  by (induction ps) (simp_all add: removeMatches_free)

lemma foldl_removeMatches_not_blank:
  assumes "\<forall>p\<in>set ps. proper p" and "\<not> is_ws h" and "js_trim s \<noteq> []"
  shows "js_trim (foldl (removeMatches (h # rep)) s ps) \<noteq> []"
  using assms(1,3)
proof (induction ps arbitrary: s)
  case Nil
  then show ?case by simp
next
  case (Cons p ps)
  from Cons.prems have "js_trim (removeMatches (h # rep) s p) \<noteq> []"
    by (intro removeMatches_not_blank [OF _ assms(2)]) simp_all
  with Cons show ?case by simp
qed

lemma foldl_removeMatches_free:
  assumes self: "\<And>p s. p \<in> set ps \<Longrightarrow> \<not> rx_test p (removeMatches rep s p)"
    and kept: "\<And>p q s. p \<in> set ps \<Longrightarrow> q \<in> set ps \<Longrightarrow> \<not> rx_test p s
                 \<Longrightarrow> \<not> rx_test p (removeMatches rep s q)"
    and "set qs \<subseteq> set ps"
  shows "\<forall>p\<in>set qs. \<not> rx_test p (foldl (removeMatches rep) s qs)"
  using assms(3)
proof (induction qs rule: rev_induct)
  case Nil
  then show ?case by simp
next
  case (snoc q qs)
  then have ih: "\<forall>p\<in>set qs. \<not> rx_test p (foldl (removeMatches rep) s qs)"
    and q: "q \<in> set ps" and qs: "set qs \<subseteq> set ps"
    by simp_all
  show ?case
  proof
    fix p
    assume "p \<in> set (qs @ [q])"
    then consider "p = q" | "p \<in> set qs" by auto
    then show "\<not> rx_test p (foldl (removeMatches rep) s (qs @ [q]))"
    proof cases
      case 1
      with self [OF q] show ?thesis by simp
    next
      case 2
      with ih qs kept [OF _ q] show ?thesis by auto
    qed
  qed
qed

subsection \<open>Markup\<close>

lemma dangerousHTML_cuts: "p \<in> set dangerousHTML \<Longrightarrow> cuts_with 62 p"
  by (auto simp: dangerousHTML_unfold cuts_with_element cuts_with_embed)

lemma dangerousHTML_cases [consumes 1, case_names element embed]:
  assumes "p \<in> set dangerousHTML"
  obtains n ns where "p = rx_element (n # ns)" and "ascii_upper n \<noteq> 33"
      and "\<forall>c\<in>set (n # ns). ascii_upper c \<noteq> 60"
    | "p = rx_embed"
proof -
  from assms consider "p = rx_element (u16 ''script'')" | "p = rx_element (u16 ''iframe'')"
    | "p = rx_element (u16 ''object'')" | "p = rx_embed" | "p = rx_element (u16 ''form'')"
    by (auto simp: dangerousHTML_unfold)
  then show thesis
  proof cases
    case 1
    show thesis by (rule that(1) [of 115 "u16 ''cript''"]) (simp_all add: 1 ascii_upper_def)
  next
    case 2
    show thesis by (rule that(1) [of 105 "u16 ''frame''"]) (simp_all add: 2 ascii_upper_def)
  next
    case 3
    show thesis by (rule that(1) [of 111 "u16 ''bject''"]) (simp_all add: 3 ascii_upper_def)
  next
    case 4
    then show thesis by (rule that(2))
  next
    case 5
    show thesis by (rule that(1) [of 102 "u16 ''orm''"]) (simp_all add: 5 ascii_upper_def)
  qed
qed

lemma dangerousHTML_self:
  assumes "p \<in> set dangerousHTML"
  shows "\<not> rx_test p (removeMatches unsafeElement s p)"
proof (cases "rx_test p s")
  case False
  then show ?thesis by (simp add: removeMatches_def)
next
  case True
  from assms have "\<not> rx_test p (replace_all p unsafeElement s)"
  proof (cases rule: dangerousHTML_cases)
    case (element n ns)
    from element_self_free [OF element(2,3)] element(1) show ?thesis by simp
  next
    case embed
    with embed_self_free show ?thesis by simp
  qed
  with True show ?thesis by (simp add: removeMatches_def)
qed

lemma dangerousHTML_kept:
  assumes "p \<in> set dangerousHTML" and "q \<in> set dangerousHTML" and "\<not> rx_test p s"
  shows "\<not> rx_test p (removeMatches unsafeElement s q)"
proof (cases "rx_test q s")
  case False
  with assms(3) show ?thesis by (simp add: removeMatches_def)
next
  case True
  note q = dangerousHTML_cuts [OF assms(2)]
  from assms(1) have "\<not> rx_test p (replace_all q unsafeElement s)"
  proof (cases rule: dangerousHTML_cases)
    case (element n ns)
    from assms(3) element(1) have "\<not> rx_test (rx_element (n # ns)) s" by simp
    from element_kept_free [OF q element(2,3) this] element(1) show ?thesis by simp
  next
    case embed
    with assms(3) have "\<not> rx_test rx_embed s" by simp
    from embed_kept_free [OF q this] embed show ?thesis by simp
  qed
  with True show ?thesis by (simp add: removeMatches_def)
qed

lemma sanitized_markup_free:
  "\<forall>p\<in>set dangerousHTML. \<not> rx_test p (foldl (removeMatches unsafeElement) s dangerousHTML)"
  by (rule foldl_removeMatches_free [OF dangerousHTML_self dangerousHTML_kept subset_refl])

lemma placeholder_markup_free:
  "\<forall>p\<in>set dangerousHTML. \<not> rx_test p (u16 ''<p><em>No HTML content to preview</em></p>'')"
  by (simp add: dangerousHTML_unfold rx_element_def rx_embed_def seq_def ascii_upper_def)

lemma placeholder_markup_not_blank:
  "js_trim (u16 ''<p><em>No HTML content to preview</em></p>'') \<noteq> []"
  by (simp add: js_trim_def is_ws_def)

lemma unsafeElement_solid: "\<not> is_ws 60"
  by (simp add: is_ws_def)

lemma validateAndSanitizeHTML_free:
  "\<forall>p\<in>set dangerousHTML. \<not> rx_test p (validateAndSanitizeHTML html)"
  using placeholder_markup_free sanitized_markup_free [of html]
  by (simp add: validateAndSanitizeHTML_def)

lemma validateAndSanitizeHTML_not_blank: "js_trim (validateAndSanitizeHTML html) \<noteq> []"
proof (cases "js_trim html = []")
  case True
  then have "validateAndSanitizeHTML html = u16 ''<p><em>No HTML content to preview</em></p>''"
    by (simp only: validateAndSanitizeHTML_def if_True refl)
  with placeholder_markup_not_blank show ?thesis by (simp del: u16_Cons u16_Nil)
next
  case False
  have "\<forall>p\<in>set dangerousHTML. proper p"
    by (blast intro: cuts_with_proper dangerousHTML_cuts)
  from foldl_removeMatches_not_blank [OF this unsafeElement_solid False] False
  show ?thesis by (simp add: validateAndSanitizeHTML_def unsafeElement_unfold)
qed

lemma validateAndSanitizeHTML_idem:
  "validateAndSanitizeHTML (validateAndSanitizeHTML html) = validateAndSanitizeHTML html"
proof -
  have "foldl (removeMatches unsafeElement) (validateAndSanitizeHTML html) dangerousHTML
      = validateAndSanitizeHTML html"
    by (rule foldl_removeMatches_id [OF validateAndSanitizeHTML_free])
  with validateAndSanitizeHTML_not_blank [of html] show ?thesis
    by (simp add: validateAndSanitizeHTML_def [of "validateAndSanitizeHTML html"])
qed

subsection \<open>The style patterns\<close>

lemma cutsD: "cuts k \<Longrightarrow> k s = Some r \<Longrightarrow> \<exists>w. s = w @ r"
  by (simp add: cuts_def)

lemma cuts_lit: "cuts (lit ps)"
  unfolding cuts_def using lit_cut by blast

lemma cuts_until: "cuts (until x)"
  unfolding cuts_def
proof (intro allI impI)
  fix s r
  assume "until x s = Some r"
  from until_cut [OF this] obtain w where "s = (w @ [x]) @ r" by auto
  then show "\<exists>w. s = w @ r" by blast
qed

lemma cuts_ws_star: "cuts ws_star"
  unfolding cuts_def ws_star_def by (metis option.inject takeWhile_dropWhile_id)

lemma cuts_ws_plus: "cuts ws_plus"
  unfolding cuts_def
proof (intro allI impI)
  fix s r
  assume a: "ws_plus s = Some r"
  then obtain c cs where s: "s = c # cs" and r: "r = dropWhile is_ws cs"
    by (auto simp: ws_plus_def split: list.splits if_splits)
  have "c # cs = (c # takeWhile is_ws cs) @ dropWhile is_ws cs" by simp
  with s r show "\<exists>w. s = w @ r" by blast
qed

lemma cuts_seq:
  assumes "cuts a" and "cuts b"
  shows "cuts (seq a b)"
  unfolding cuts_def
proof (intro allI impI)
  fix s r
  assume "seq a b s = Some r"
  then obtain t where "a s = Some t" "b t = Some r" by (auto simp: seq_Some)
  with cutsD [OF assms(1)] cutsD [OF assms(2)] obtain w1 w2 where "s = w1 @ t" "t = w2 @ r"
    by blast
  then have "s = (w1 @ w2) @ r" by simp
  then show "\<exists>w. s = w @ r" by blast
qed

lemma is_ws_upper: "is_ws c \<Longrightarrow> ascii_upper c = c"
  by (auto simp: is_ws_def ascii_upper_def)

lemma proper_word_first:
  assumes "cuts T"
  shows "proper (seq (lit (a # ps)) T)"
  unfolding proper_def
proof (intro allI impI)
  fix s r
  assume "seq (lit (a # ps)) T s = Some r"
  then obtain t where t: "lit (a # ps) s = Some t" and r: "T t = Some r"
    by (auto simp: seq_Some)
  from lit_cut [OF t] obtain w1 where w1: "s = w1 @ t" "length w1 = length (a # ps)" by blast
  from cutsD [OF assms r] obtain w2 where w2: "t = w2 @ r" by blast
  from w1 w2 have "w1 @ w2 \<noteq> [] \<and> s = (w1 @ w2) @ r" by auto
  then show "\<exists>w. w \<noteq> [] \<and> s = w @ r" by blast
qed

lemma starts_solid_word_first:
  assumes "\<not> is_ws (ascii_upper a)"
  shows "starts_solid (seq (lit (a # ps)) T)"
  unfolding starts_solid_def
proof (intro allI impI)
  fix c cs r
  assume "seq (lit (a # ps)) T (c # cs) = Some r"
  then have eq: "ascii_upper c = ascii_upper a"
    by (auto simp: seq_def split: if_splits option.splits)
  show "\<not> is_ws c"
  proof
    assume "is_ws c"
    with is_ws_upper [OF this] eq assms show False by simp
  qed
qed

lemma rx_import_unfold:
  "rx_import = seq (lit (64 # u16 ''import''))
     (seq ws_plus (seq (lit (u16 ''url'')) (seq ws_star (seq (lit [40]) (until 41)))))"
  by (simp add: rx_import_def)

lemma rx_word_unfold: "rx_word (k # ks) c = seq (lit (k # ks)) (seq ws_star (lit [c]))"
  by (simp add: rx_word_def)

lemma unsafeCSS_unfold: "unsafeCSS = 47 # u16 ''* Unsafe CSS removed */''"
  by (simp add: unsafeCSS_def)

lemma proper_import: "proper rx_import"
  unfolding rx_import_unfold
  by (intro proper_word_first cuts_seq cuts_lit cuts_ws_plus cuts_ws_star cuts_until)

lemma starts_solid_import: "starts_solid rx_import"
  unfolding rx_import_unfold
  by (rule starts_solid_word_first) (simp add: is_ws_def ascii_upper_def)

lemma proper_word: "proper (rx_word (k # ks) c)"
  unfolding rx_word_unfold
  by (intro proper_word_first cuts_seq cuts_lit cuts_ws_star)

lemma starts_solid_word: "\<not> is_ws (ascii_upper k) \<Longrightarrow> starts_solid (rx_word (k # ks) c)"
  unfolding rx_word_unfold by (rule starts_solid_word_first)

lemma import_tail_survives:
  assumes "proper m" and "starts_solid m"
  shows "survives m unsafeCSS
     (seq (lit (u16 ''import''))
        (seq ws_plus (seq (lit (u16 ''url'')) (seq ws_star (seq (lit [40]) (until 41))))))"
proof -
  have solid: "\<not> is_ws 47" by (simp add: is_ws_def)
  have l1: "pulls_back m unsafeCSS (lit (u16 ''import''))"
    unfolding unsafeCSS_unfold
    by (rule pulls_back_lit [OF assms(1)]) (simp add: ascii_upper_def)
  have l2: "pulls_back m unsafeCSS (lit (u16 ''url''))"
    unfolding unsafeCSS_unfold
    by (rule pulls_back_lit [OF assms(1)]) (simp add: ascii_upper_def)
  have l3: "pulls_back m unsafeCSS (lit [40])"
    unfolding unsafeCSS_unfold
    by (rule pulls_back_lit [OF assms(1)]) (simp add: ascii_upper_def)
  have w1: "pulls_back m unsafeCSS ws_plus"
    unfolding unsafeCSS_unfold by (rule pulls_back_ws_plus [OF assms solid])
  have w2: "pulls_back m unsafeCSS ws_star"
    unfolding unsafeCSS_unfold by (rule pulls_back_ws_star [OF assms solid])
  have u: "survives m unsafeCSS (until 41)"
    by (rule survives_until_absent [OF assms(1)]) (simp add: unsafeCSS_def)
  show ?thesis
    by (intro survives_seq l1 w1 l2 w2 l3 u)
qed

lemma word_tail_survives:
  assumes "proper m" and "starts_solid m"
    and "\<forall>p\<in>set ks. ascii_upper p \<noteq> 47" and "ascii_upper c \<noteq> 47"
  shows "survives m unsafeCSS (seq (lit ks) (seq ws_star (lit [c])))"
proof -
  have solid: "\<not> is_ws 47" by (simp add: is_ws_def)
  have up: "ascii_upper 47 = 47" by (simp add: ascii_upper_def)
  have l1: "pulls_back m unsafeCSS (lit ks)"
    unfolding unsafeCSS_unfold
    by (rule pulls_back_lit [OF assms(1)]) (simp add: up assms(3))
  have l2: "pulls_back m unsafeCSS (lit [c])"
    unfolding unsafeCSS_unfold
    by (rule pulls_back_lit [OF assms(1)]) (simp add: up assms(4))
  have w: "pulls_back m unsafeCSS ws_star"
    unfolding unsafeCSS_unfold by (rule pulls_back_ws_star [OF assms(1,2) solid])
  show ?thesis
    by (intro pulls_back_survives pulls_back_seq l1 w l2)
qed

lemma host_import: "rx_test rx_import (unsafeCSS @ t) = rx_test rx_import t"
  by (simp add: unsafeCSS_def rx_import_def seq_def ascii_upper_def)

lemma host_javascript:
  "rx_test (rx_word (u16 ''javascript'') 58) (unsafeCSS @ t)
     = rx_test (rx_word (u16 ''javascript'') 58) t"
  by (simp add: unsafeCSS_def rx_word_def seq_def ascii_upper_def)

lemma host_expression:
  "rx_test (rx_word (u16 ''expression'') 40) (unsafeCSS @ t)
     = rx_test (rx_word (u16 ''expression'') 40) t"
  by (simp add: unsafeCSS_def rx_word_def seq_def ascii_upper_def)

lemma host_behavior:
  "rx_test (rx_word (u16 ''behavior'') 58) (unsafeCSS @ t)
     = rx_test (rx_word (u16 ''behavior'') 58) t"
  by (simp add: unsafeCSS_def rx_word_def seq_def ascii_upper_def)

lemma import_kept_free:
  assumes "proper m" and "starts_solid m" and "\<not> rx_test rx_import s"
  shows "\<not> rx_test rx_import (replace_all m unsafeCSS s)"
proof
  assume t: "rx_test rx_import (replace_all m unsafeCSS s)"
  have "rx_test rx_import s"
  proof (rule rx_test_replace_all [OF assms(1) _ _ _ t])
    show "rx_import [] = None" by (simp add: rx_import_unfold seq_def)
  next
    fix c cs
    assume "rx_import (c # replace_all m unsafeCSS cs) \<noteq> None"
    then show "rx_import (c # cs) \<noteq> None"
      unfolding rx_import_unfold
      by (rule front_survives [OF import_tail_survives [OF assms(1,2)]])
  next
    fix t
    show "rx_test rx_import (unsafeCSS @ t) = rx_test rx_import t" by (rule host_import)
  qed
  with assms(3) show False by simp
qed

lemma import_self_free: "\<not> rx_test rx_import (replace_all rx_import unsafeCSS s)"
proof (rule rx_test_replace_self [OF proper_import])
  fix c cs
  assume "rx_import (c # replace_all rx_import unsafeCSS cs) \<noteq> None"
  then show "rx_import (c # cs) \<noteq> None"
    unfolding rx_import_unfold
    by (rule front_survives [OF import_tail_survives
          [OF proper_import [unfolded rx_import_unfold] starts_solid_import [unfolded rx_import_unfold]]])
next
  fix t
  show "rx_test rx_import (unsafeCSS @ t) = rx_test rx_import t" by (rule host_import)
qed

lemma word_kept_free:
  assumes "proper m" and "starts_solid m"
    and "\<forall>p\<in>set ks. ascii_upper p \<noteq> 47" and "ascii_upper c \<noteq> 47"
    and host: "\<And>t. rx_test (rx_word (k # ks) c) (unsafeCSS @ t) = rx_test (rx_word (k # ks) c) t"
    and "\<not> rx_test (rx_word (k # ks) c) s"
  shows "\<not> rx_test (rx_word (k # ks) c) (replace_all m unsafeCSS s)"
proof
  assume t: "rx_test (rx_word (k # ks) c) (replace_all m unsafeCSS s)"
  have "rx_test (rx_word (k # ks) c) s"
  proof (rule rx_test_replace_all [OF assms(1) _ _ host t])
    show "rx_word (k # ks) c [] = None" by (simp add: rx_word_unfold seq_def)
  next
    fix d ds
    assume "rx_word (k # ks) c (d # replace_all m unsafeCSS ds) \<noteq> None"
    then show "rx_word (k # ks) c (d # ds) \<noteq> None"
      unfolding rx_word_unfold
      by (rule front_survives [OF word_tail_survives [OF assms(1-4)]])
  qed
  with assms(6) show False by simp
qed

lemma word_self_free:
  assumes "\<not> is_ws (ascii_upper k)"
    and "\<forall>p\<in>set ks. ascii_upper p \<noteq> 47" and "ascii_upper c \<noteq> 47"
    and host: "\<And>t. rx_test (rx_word (k # ks) c) (unsafeCSS @ t) = rx_test (rx_word (k # ks) c) t"
  shows "\<not> rx_test (rx_word (k # ks) c) (replace_all (rx_word (k # ks) c) unsafeCSS s)"
proof (rule rx_test_replace_self [OF proper_word _ host])
  fix d ds
  assume "rx_word (k # ks) c (d # replace_all (rx_word (k # ks) c) unsafeCSS ds) \<noteq> None"
  then show "rx_word (k # ks) c (d # ds) \<noteq> None"
    unfolding rx_word_unfold
    by (rule front_survives [OF word_tail_survives
          [OF proper_word [unfolded rx_word_unfold]
              starts_solid_word [OF assms(1), unfolded rx_word_unfold] assms(2,3)]])
qed

lemma dangerousCSS_cases [consumes 1, case_names import word]:
  assumes "p \<in> set dangerousCSS"
  obtains "p = rx_import"
    | k ks c where "p = rx_word (k # ks) c" and "\<not> is_ws (ascii_upper k)"
      and "\<forall>p\<in>set ks. ascii_upper p \<noteq> 47" and "ascii_upper c \<noteq> 47"
      and "\<And>t. rx_test (rx_word (k # ks) c) (unsafeCSS @ t) = rx_test (rx_word (k # ks) c) t"
proof -
  from assms consider "p = rx_import" | "p = rx_word (u16 ''javascript'') 58"
    | "p = rx_word (u16 ''expression'') 40" | "p = rx_word (u16 ''behavior'') 58"
    by (auto simp: dangerousCSS_unfold)
  then show thesis
  proof cases
    case 1
    then show thesis by (rule that(1))
  next
    case 2
    show thesis
    proof (rule that(2) [of 106 "u16 ''avascript''" 58])
      show "rx_test (rx_word (106 # u16 ''avascript'') 58) (unsafeCSS @ t)
          = rx_test (rx_word (106 # u16 ''avascript'') 58) t" for t
        using host_javascript [of t] by simp
    qed (simp_all add: 2 ascii_upper_def is_ws_def)
  next
    case 3
    show thesis
    proof (rule that(2) [of 101 "u16 ''xpression''" 40])
      show "rx_test (rx_word (101 # u16 ''xpression'') 40) (unsafeCSS @ t)
          = rx_test (rx_word (101 # u16 ''xpression'') 40) t" for t
        using host_expression [of t] by simp
    qed (simp_all add: 3 ascii_upper_def is_ws_def)
  next
    case 4
    show thesis
    proof (rule that(2) [of 98 "u16 ''ehavior''" 58])
      show "rx_test (rx_word (98 # u16 ''ehavior'') 58) (unsafeCSS @ t)
          = rx_test (rx_word (98 # u16 ''ehavior'') 58) t" for t
        using host_behavior [of t] by simp
    qed (simp_all add: 4 ascii_upper_def is_ws_def)
  qed
qed

lemma dangerousCSS_proper:
  assumes "p \<in> set dangerousCSS"
  shows "proper p"
  using assms
proof (cases rule: dangerousCSS_cases)
  case import
  with proper_import show ?thesis by simp
next
  case (word k ks c)
  with proper_word show ?thesis by simp
qed

lemma dangerousCSS_solid:
  assumes "p \<in> set dangerousCSS"
  shows "starts_solid p"
  using assms
proof (cases rule: dangerousCSS_cases)
  case import
  with starts_solid_import show ?thesis by simp
next
  case (word k ks c)
  from starts_solid_word [OF word(2)] word(1) show ?thesis by simp
qed

lemma dangerousCSS_self:
  assumes "p \<in> set dangerousCSS"
  shows "\<not> rx_test p (removeMatches unsafeCSS s p)"
proof (cases "rx_test p s")
  case False
  then show ?thesis by (simp add: removeMatches_def)
next
  case True
  from assms have "\<not> rx_test p (replace_all p unsafeCSS s)"
  proof (cases rule: dangerousCSS_cases)
    case import
    with import_self_free show ?thesis by simp
  next
    case (word k ks c)
    from word_self_free [OF word(2-5)] word(1) show ?thesis by simp
  qed
  with True show ?thesis by (simp add: removeMatches_def)
qed

lemma dangerousCSS_kept:
  assumes "p \<in> set dangerousCSS" and "q \<in> set dangerousCSS" and "\<not> rx_test p s"
  shows "\<not> rx_test p (removeMatches unsafeCSS s q)"
proof (cases "rx_test q s")
  case False
  with assms(3) show ?thesis by (simp add: removeMatches_def)
next
  case True
  note q = dangerousCSS_proper [OF assms(2)] dangerousCSS_solid [OF assms(2)]
  from assms(1) have "\<not> rx_test p (replace_all q unsafeCSS s)"
  proof (cases rule: dangerousCSS_cases)
    case import
    with assms(3) have "\<not> rx_test rx_import s" by simp
    from import_kept_free [OF q this] import show ?thesis by simp
  next
    case (word k ks c)
    from assms(3) word(1) have "\<not> rx_test (rx_word (k # ks) c) s" by simp
    from word_kept_free [OF q word(3,4,5) this] word(1) show ?thesis by simp
  qed
  with True show ?thesis by (simp add: removeMatches_def)
qed

lemma sanitized_style_free:
  "\<forall>p\<in>set dangerousCSS. \<not> rx_test p (foldl (removeMatches unsafeCSS) s dangerousCSS)"
  by (rule foldl_removeMatches_free [OF dangerousCSS_self dangerousCSS_kept subset_refl])

lemma placeholder_style_free:
  "\<forall>p\<in>set dangerousCSS. \<not> rx_test p (u16 ''/* No CSS content */'')"
  by (simp add: dangerousCSS_unfold rx_import_def rx_word_def seq_def ascii_upper_def)

lemma placeholder_style_not_blank: "js_trim (u16 ''/* No CSS content */'') \<noteq> []"
  by (simp add: js_trim_def is_ws_def)

lemma validateAndSanitizeCSS_free:
  "\<forall>p\<in>set dangerousCSS. \<not> rx_test p (validateAndSanitizeCSS css)"
  using placeholder_style_free sanitized_style_free [of css]
  by (simp add: validateAndSanitizeCSS_def)

lemma validateAndSanitizeCSS_not_blank: "js_trim (validateAndSanitizeCSS css) \<noteq> []"
proof (cases "js_trim css = []")
  case True
  then have "validateAndSanitizeCSS css = u16 ''/* No CSS content */''"
    by (simp only: validateAndSanitizeCSS_def if_True refl)
  with placeholder_style_not_blank show ?thesis by (simp del: u16_Cons u16_Nil)
next
  case False
  have solid: "\<not> is_ws 47" by (simp add: is_ws_def)
  have "\<forall>p\<in>set dangerousCSS. proper p"
    by (blast intro: dangerousCSS_proper)
  from foldl_removeMatches_not_blank [OF this solid False] False
  show ?thesis by (simp add: validateAndSanitizeCSS_def unsafeCSS_unfold)
qed

lemma validateAndSanitizeCSS_idem:
  "validateAndSanitizeCSS (validateAndSanitizeCSS css) = validateAndSanitizeCSS css"
proof -
  have "foldl (removeMatches unsafeCSS) (validateAndSanitizeCSS css) dangerousCSS
      = validateAndSanitizeCSS css"
    by (rule foldl_removeMatches_id [OF validateAndSanitizeCSS_free])
  with validateAndSanitizeCSS_not_blank [of css] show ?thesis
    by (simp add: validateAndSanitizeCSS_def [of "validateAndSanitizeCSS css"])
qed

lemma markers_not_matched:
  "(\<forall>p\<in>set dangerousHTML. \<not> rx_test p unsafeElement)
   \<and> (\<forall>p\<in>set dangerousCSS. \<not> rx_test p unsafeCSS)"
  by (simp add: dangerousHTML_unfold rx_element_def rx_embed_def unsafeElement_def
      dangerousCSS_unfold rx_import_def rx_word_def unsafeCSS_def seq_def ascii_upper_def)

section \<open>Properties of the sanitizers\<close>

lemma sanitize_script_example:
  "validateAndSanitizeHTML (u16 ''<script>alert(1)</script><p>ok</p>'')
     = u16 ''<!-- Unsafe element removed for security --><p>ok</p>''"
  by (simp add: validateAndSanitizeHTML_def js_trim_def is_ws_def dangerousHTML_unfold
      removeMatches_def rx_element_def rx_embed_def seq_def ascii_upper_def unsafeElement_def
      replace_all.simps)

lemma sanitize_style_example:
  "validateAndSanitizeCSS (u16 ''a{b:JavaScript :x}'') = u16 ''a{b:/* Unsafe CSS removed */x}''"
  by (simp add: validateAndSanitizeCSS_def js_trim_def is_ws_def dangerousCSS_unfold
      removeMatches_def rx_import_def rx_word_def seq_def ascii_upper_def unsafeCSS_def
      ws_star_def ws_plus_def replace_all.simps)

text \<open>
  C7. Sanitizing markup that has been sanitized changes nothing, and the same holds
  for style: no dangerous pattern matches in the output of its sanitizer, and the
  inserted comments themselves are matched by none of the patterns.
\<close>

theorem sanitizers_idempotent:
  "validateAndSanitizeHTML (validateAndSanitizeHTML html) = validateAndSanitizeHTML html
   \<and> validateAndSanitizeCSS (validateAndSanitizeCSS css) = validateAndSanitizeCSS css
   \<and> (\<forall>p\<in>set dangerousHTML. \<not> rx_test p (validateAndSanitizeHTML html))
   \<and> (\<forall>p\<in>set dangerousCSS. \<not> rx_test p (validateAndSanitizeCSS css))
   \<and> (\<forall>p\<in>set dangerousHTML. \<not> rx_test p unsafeElement)
   \<and> (\<forall>p\<in>set dangerousCSS. \<not> rx_test p unsafeCSS)"
  using validateAndSanitizeHTML_idem validateAndSanitizeCSS_idem validateAndSanitizeHTML_free
    validateAndSanitizeCSS_free markers_not_matched
  by blast

theorem sanitizers_idempotent_witness:
  "validateAndSanitizeHTML (u16 ''<!-- Unsafe element removed for security --><p>ok</p>'')
     = u16 ''<!-- Unsafe element removed for security --><p>ok</p>''
   \<and> validateAndSanitizeCSS (u16 ''a{b:/* Unsafe CSS removed */x}'')
     = u16 ''a{b:/* Unsafe CSS removed */x}''"
  using sanitizers_idempotent [of "u16 ''<script>alert(1)</script><p>ok</p>''"
      "u16 ''a{b:JavaScript :x}''"]
  by (simp only: sanitize_script_example sanitize_style_example)



section \<open>Removal comments\<close>

lemma starts_with_iff: "starts_with s t \<longleftrightarrow> (\<exists>post. s = t @ post)"
  by (induction s t rule: starts_with.induct) auto

lemma js_includes_iff: "js_includes s t \<longleftrightarrow> (\<exists>pre post. s = pre @ t @ post)"
proof (induction s)
  case Nil
  then show ?case by auto
next
  case (Cons c cs)
  show ?case
  proof
    assume "js_includes (c # cs) t"
    then consider "starts_with (c # cs) t" | "js_includes cs t" by auto
    then show "\<exists>pre post. c # cs = pre @ t @ post"
    proof cases
      case 1
      then obtain post where "c # cs = [] @ t @ post" by (auto simp: starts_with_iff)
      then show ?thesis by blast
    next
      case 2
      with Cons obtain pre post where "cs = pre @ t @ post" by blast
      then have "c # cs = (c # pre) @ t @ post" by simp
      then show ?thesis by blast
    qed
  next
    assume "\<exists>pre post. c # cs = pre @ t @ post"
    then obtain pre post where eq: "c # cs = pre @ t @ post" by blast
    show "js_includes (c # cs) t"
    proof (cases pre)
      case Nil
      with eq have "starts_with (c # cs) t" by (auto simp: starts_with_iff)
      then show ?thesis by simp
    next
      case (Cons d ds)
      with eq have "cs = ds @ t @ post" by simp
      with Cons.IH have "js_includes cs t" by blast
      then show ?thesis by simp
    qed
  qed
qed

lemma js_includesI: "s = pre @ t @ post \<Longrightarrow> js_includes s t"
  by (auto simp: js_includes_iff)

lemma replace_all_includes:
  assumes "proper p"
  shows "rx_test p s \<Longrightarrow> js_includes (replace_all p rep s) rep"
proof (induction s)
  case Nil
  with proper_Nil [OF assms] show ?case by simp
next
  case (Cons c cs)
  show ?case
  proof (cases "p (c # cs)")
    case None
    with Cons have "js_includes (replace_all p rep cs) rep" by simp
    with None show ?thesis by simp
  next
    case (Some r)
    have "replace_all p rep (c # cs) = [] @ rep @ replace_all p rep r"
      using replace_all_hit [OF assms Some] by simp
    then show ?thesis by (rule js_includesI)
  qed
qed

lemma removeMatches_keeps_comment:
  assumes "proper p" and "js_includes s rep"
  shows "js_includes (removeMatches rep s p) rep"
  using assms replace_all_includes [OF assms(1), of s rep]
  by (simp add: removeMatches_def)

lemma foldl_removeMatches_keeps_comment:
  assumes "\<forall>p\<in>set ps. proper p"
  shows "js_includes s rep \<Longrightarrow> js_includes (foldl (removeMatches rep) s ps) rep"
  using assms
proof (induction ps arbitrary: s)
  case Nil
  then show ?case by simp
next
  case (Cons q qs)
  from Cons.prems have "js_includes (removeMatches rep s q) rep"
    by (intro removeMatches_keeps_comment) simp_all
  with Cons show ?case by simp
qed

lemma foldl_removeMatches_marks:
  assumes "\<forall>p\<in>set ps. proper p"
  shows "\<exists>p\<in>set ps. rx_test p s \<Longrightarrow> js_includes (foldl (removeMatches rep) s ps) rep"
  using assms
proof (induction ps arbitrary: s)
  case Nil
  then show ?case by simp
next
  case (Cons q qs)
  from Cons.prems(2) have qs: "\<forall>p\<in>set qs. proper p" and q: "proper q" by simp_all
  show ?case
  proof (cases "rx_test q s")
    case True
    with replace_all_includes [OF q, of s rep]
    have "js_includes (removeMatches rep s q) rep" by (simp add: removeMatches_def)
    from foldl_removeMatches_keeps_comment [OF qs this] show ?thesis by simp
  next
    case False
    with Cons.prems(1) have "\<exists>p\<in>set qs. rx_test p s" by auto
    from Cons.IH [OF this qs] False show ?thesis by (simp add: removeMatches_def)
  qed
qed

lemma sanitized_markup_marked:
  assumes "js_trim html \<noteq> []" and "p \<in> set dangerousHTML" and "rx_test p html"
  shows "js_includes (validateAndSanitizeHTML html) unsafeElement"
proof -
  have "\<forall>p\<in>set dangerousHTML. proper p"
    by (blast intro: cuts_with_proper dangerousHTML_cuts)
  from foldl_removeMatches_marks [OF this] assms show ?thesis
    by (auto simp: validateAndSanitizeHTML_def)
qed

section \<open>Replacing the leftmost block\<close>


















lemma sanitize_script_middle_example:
  "validateAndSanitizeHTML (u16 ''<b>x</b><SCRIPT src=a>alert(1)</script><p>ok</p>'')
     = u16 ''<b>x</b><!-- Unsafe element removed for security --><p>ok</p>''"
  by (simp add: validateAndSanitizeHTML_def js_trim_def is_ws_def dangerousHTML_unfold
      removeMatches_def rx_element_def rx_embed_def seq_def ascii_upper_def unsafeElement_def
      replace_all.simps)





section \<open>The script scenario\<close>






end
